theory Spec2Isabelle
  imports Complex_Main "HOL-Library.AList" "HOL-Library.Char_ord" "HOL-Library.List_Lexorder"
begin

section \<open>Errors, messages and the calls made to the cluster clients\<close>

text \<open>
  The controller of \<^verbatim>\<open>esque/controller/topic_controller.py\<close> talks to a Kafka cluster
  through two clients and through per-partition consumers. The cluster is the environment
  of the model: a record of the answers it gives. Every function of the controller returns
  its result (an exception is \<open>Inl\<close>) paired with the calls it made, in order.
\<close>

type_synonym kafka_error = int

datatype error =
    TopicNotFoundError
  | AdminOperationFailedError kafka_error
  | CompletionTimeoutError
  | AssertionError
  | KeyError
  | KafkaException kafka_error
  | ValueError
  | AttributeError

record message =
  msg_partition :: int
  msg_offset :: int
  msg_timestamp :: int

text \<open>
  What one call of \<^verbatim>\<open>consume_single_message\<close> does: it returns a message, or raises
  \<^verbatim>\<open>MessageEmptyException\<close>, \<^verbatim>\<open>EndOfPartitionReachedException\<close> or some other
  client exception, which the resolver does not catch.
\<close>

datatype poll_result =
    Message message
  | MessageEmpty
  | EndOfPartitionReached
  | PollFailed kafka_error

record new_topic =
  nt_name :: string
  nt_num_partitions :: int
  nt_replication_factor :: int
  nt_config :: "(string \<times> string) list"

datatype call =
    ClientPoll
  | ListTopics "string option"
  | PyKafkaTopics string
  | EarliestAvailableOffsets string
  | LatestAvailableOffsets string
  | OpenMessageConsumer string
  | Consume string int int
  | RetrieveConfig string
  | AssignSpecificPartitions string int
  | ConsumeSingleMessage int poll_result
  | CreateTopics new_topic
  | AlterConfigs string "(string \<times> string) list"
  | DeleteTopics string
  | InvalidateCache

text \<open>A completion future of an admin operation, as it stands when it is awaited.\<close>

datatype future_outcome = Done | Failed kafka_error | TimedOut

record partition_meta =
  meta_isrs :: "int list"
  meta_leader :: int
  meta_replicas :: "int list"

record topic_metadata =
  md_topic :: string
  md_error :: "kafka_error option"
  md_partitions :: "(int \<times> partition_meta) list"

record cluster =
  all_topics :: "topic_metadata list"
  topic_lookup :: "string \<Rightarrow> topic_metadata"
  earliest_available_offsets :: "string \<Rightarrow> (int \<times> int) list"
  latest_available_offsets :: "string \<Rightarrow> (int \<times> int) list"
  record_at :: "string \<Rightarrow> int \<Rightarrow> int \<Rightarrow> kafka_error + message"
  topic_config :: "string \<Rightarrow> (string \<times> string) list"
  polls :: "string \<Rightarrow> int \<Rightarrow> nat \<Rightarrow> poll_result"
  create_future :: "new_topic \<Rightarrow> future_outcome"
  alter_future :: "string \<Rightarrow> (string \<times> string) list \<Rightarrow> future_outcome"
  delete_future :: "string \<Rightarrow> future_outcome"

section \<open>Topics and partitions\<close>

record partition =
  partition_id :: int
  low_watermark :: int
  high_watermark :: int
  partition_isrs :: "int list"
  partition_leader :: int
  partition_replicas :: "int list"
  latest_timestamp :: "real option"

text \<open>
  Modelled from the spec: the \<^verbatim>\<open>Topic\<close> class (\<^verbatim>\<open>esque/resources/topic.py\<close>) is not
  among the sources. A topic has a name, an optional declared partition count and
  replication factor, a configuration mapping, the ordered sequence of its partition
  snapshots and the flag \<^verbatim>\<open>is_only_local\<close>; \<^verbatim>\<open>Topic(name)\<close> is a bare local declaration.
\<close>

record topic =
  name :: string
  num_partitions :: "int option"
  replication_factor :: "int option"
  config :: "(string \<times> string) list"
  partition_data :: "partition list"
  is_only_local :: bool

definition Topic :: "string \<Rightarrow> topic" where
  "Topic n = \<lparr>name = n, num_partitions = None, replication_factor = None, config = [],
     partition_data = [], is_only_local = True\<rparr>"

datatype ClientTypes = Confluent | PyKafka

datatype ClientType = ConfluentTopic topic_metadata | PyKafkaTopic string

section \<open>Fetching a topic from the cluster\<close>

text \<open>
  Modelled from the spec: \<^verbatim>\<open>raise_for_kafka_error\<close> (\<^verbatim>\<open>esque/errors.py\<close>) is not among
  the sources. The lookup fails with \<^verbatim>\<open>TopicNotFoundError\<close> if the cluster reports an
  error for the name.
\<close>

definition raise_for_kafka_error :: "kafka_error option \<Rightarrow> error + unit" where
  "raise_for_kafka_error err = (case err of None \<Rightarrow> Inr () | Some e \<Rightarrow> Inl TopicNotFoundError)"

definition get_client_topic :: "cluster \<Rightarrow> string \<Rightarrow> ClientTypes \<Rightarrow> (error + ClientType) \<times> call list" where
  "get_client_topic cl topic_name client_type =
     (let topic_metadata = topic_lookup cl topic_name;
          calls = [ListTopics (Some topic_name)]
      in case raise_for_kafka_error (md_error topic_metadata) of
           Inl e \<Rightarrow> (Inl e, calls)
         | Inr _ \<Rightarrow>
             (case client_type of
                Confluent \<Rightarrow> (Inr (ConfluentTopic topic_metadata), calls)
              | PyKafka \<Rightarrow> (Inr (PyKafkaTopic topic_name), calls @ [PyKafkaTopics topic_name])))"

text \<open>
  One iteration of the loop of \<^verbatim>\<open>_get_partition_data\<close>. A partition id missing from
  a watermark mapping is a \<^verbatim>\<open>KeyError\<close>; an exception of the consumer goes through.
  Python's \<^verbatim>\<open>float(ts) / 1000\<close> is the exact quotient here.
\<close>

definition get_partition ::
  "cluster \<Rightarrow> string \<Rightarrow> (int \<times> int) list \<Rightarrow> (int \<times> int) list \<Rightarrow> int \<Rightarrow> partition_meta
     \<Rightarrow> (error + partition) \<times> call list" where
  "get_partition cl n low_watermarks high_watermarks pid meta =
     (case map_of low_watermarks pid of
        None \<Rightarrow> (Inl KeyError, [])
      | Some low \<Rightarrow>
         (case map_of high_watermarks pid of
            None \<Rightarrow> (Inl KeyError, [])
          | Some high \<Rightarrow>
             (if high > low then
                (case record_at cl n (high - 1) pid of
                   Inl e \<Rightarrow> (Inl (KafkaException e), [Consume n (high - 1) pid])
                 | Inr m \<Rightarrow>
                    (Inr \<lparr>partition_id = pid, low_watermark = low, high_watermark = high,
                          partition_isrs = meta_isrs meta, partition_leader = meta_leader meta,
                          partition_replicas = meta_replicas meta,
                          latest_timestamp = Some (real_of_int (msg_timestamp m) / 1000)\<rparr>,
                     [Consume n (high - 1) pid]))
              else
                (Inr \<lparr>partition_id = pid, low_watermark = low, high_watermark = high,
                      partition_isrs = meta_isrs meta, partition_leader = meta_leader meta,
                      partition_replicas = meta_replicas meta,
                      latest_timestamp = None\<rparr>,
                 []))))"

text \<open>The loop over \<^verbatim>\<open>confluent_topic.partitions.items()\<close>, appending each partition.\<close>

fun partition_loop ::
  "cluster \<Rightarrow> string \<Rightarrow> (int \<times> int) list \<Rightarrow> (int \<times> int) list \<Rightarrow> (int \<times> partition_meta) list
     \<Rightarrow> (error + partition list) \<times> call list" where
  "partition_loop cl n low_watermarks high_watermarks [] = (Inr [], [])"
| "partition_loop cl n low_watermarks high_watermarks ((pid, meta) # rest) =
     (case get_partition cl n low_watermarks high_watermarks pid meta of
        (Inl e, calls1) \<Rightarrow> (Inl e, calls1)
      | (Inr p, calls1) \<Rightarrow>
         (case partition_loop cl n low_watermarks high_watermarks rest of
            (Inl e, calls2) \<Rightarrow> (Inl e, calls1 @ calls2)
          | (Inr ps, calls2) \<Rightarrow> (Inr (p # ps), calls1 @ calls2)))"

definition get_partition_data ::
  "cluster \<Rightarrow> topic_metadata \<Rightarrow> (int \<times> int) list \<Rightarrow> (int \<times> int) list \<Rightarrow> topic
     \<Rightarrow> (error + partition list) \<times> call list" where
  "get_partition_data cl confluent_topic low_watermarks high_watermarks t =
     (case partition_loop cl (name t) low_watermarks high_watermarks (md_partitions confluent_topic) of
        (r, calls) \<Rightarrow> (r, OpenMessageConsumer (name t) # calls))"

definition update_from_cluster :: "cluster \<Rightarrow> topic \<Rightarrow> (error + topic) \<times> call list" where
  "update_from_cluster cl t =
     (case get_client_topic cl (name t) Confluent of
        (Inl e, calls1) \<Rightarrow> (Inl e, calls1)
      | (Inr (PyKafkaTopic _), calls1) \<Rightarrow> (Inl AttributeError, calls1)
      | (Inr (ConfluentTopic confluent_topic), calls1) \<Rightarrow>
         (case get_client_topic cl (name t) PyKafka of
            (Inl e, calls2) \<Rightarrow> (Inl e, calls1 @ calls2)
          | (Inr _, calls2) \<Rightarrow>
             (let low_watermarks = earliest_available_offsets cl (name t);
                  high_watermarks = latest_available_offsets cl (name t);
                  calls3 = calls1 @ calls2 @ [EarliestAvailableOffsets (name t), LatestAvailableOffsets (name t)]
              in case get_partition_data cl confluent_topic low_watermarks high_watermarks t of
                   (Inl e, calls4) \<Rightarrow> (Inl e, calls3 @ calls4)
                 | (Inr ps, calls4) \<Rightarrow>
                    (Inr (t\<lparr>partition_data := ps, config := topic_config cl (name t),
                            is_only_local := False\<rparr>),
                     calls3 @ calls4 @ [RetrieveConfig (name t)]))))"

definition get_cluster_topic :: "cluster \<Rightarrow> string \<Rightarrow> (error + topic) \<times> call list" where
  "get_cluster_topic cl topic_name = update_from_cluster cl (Topic topic_name)"

definition get_local_topic :: "string \<Rightarrow> topic" where
  "get_local_topic topic_name = Topic topic_name"

section \<open>Offsets closest to a timestamp\<close>

text \<open>
  The test of the scan is
  \<^verbatim>\<open>datetime.fromtimestamp(int(message.timestamp()[1] / 1000.0), timezone.utc) < timestamp_limit\<close>.
  The timestamp of a message is in milliseconds; \<^verbatim>\<open>int\<close> truncates the quotient towards
  zero, to whole seconds. \<^verbatim>\<open>fromtimestamp\<close> raises outside the years 1 to 9999; within
  them the floating-point quotient has the integer part of the exact one. An instant is
  a number of microseconds since the epoch, the resolution of the target instant.
\<close>

definition int_div_1000 :: "int \<Rightarrow> int" where
  "int_div_1000 ts = (if 0 \<le> ts then ts div 1000 else - ((- ts) div 1000))"

definition fromtimestamp_utc :: "int \<Rightarrow> error + int" where
  "fromtimestamp_utc s =
     (if - 62135596800 \<le> s \<and> s \<le> 253402300799 then Inr (s * 1000000) else Inl ValueError)"

record scan_state =
  partition_offsets :: "(int \<times> int) list"
  max_retry_count :: int
  keep_polling_current_partition :: bool

text \<open>
  The body of the \<^verbatim>\<open>while\<close> loop, given what \<^verbatim>\<open>consume_single_message\<close> did. A
  dictionary is an association list in insertion order, an assignment is \<open>AList.update\<close>.
\<close>

definition poll_once :: "int \<Rightarrow> poll_result \<Rightarrow> scan_state \<Rightarrow> error + scan_state" where
  "poll_once timestamp_limit r st =
     (case r of
        MessageEmpty \<Rightarrow>
          (let st1 = st\<lparr>max_retry_count := max_retry_count st - 1\<rparr>
           in if max_retry_count st1 \<le> 0
              then Inr (st1\<lparr>keep_polling_current_partition := False\<rparr>)
              else Inr st1)
      | EndOfPartitionReached \<Rightarrow> Inr (st\<lparr>keep_polling_current_partition := False\<rparr>)
      | PollFailed e \<Rightarrow> Inl (KafkaException e)
      | Message m \<Rightarrow>
          (case fromtimestamp_utc (int_div_1000 (msg_timestamp m)) of
             Inl e \<Rightarrow> Inl e
           | Inr t \<Rightarrow>
               (if t < timestamp_limit
                then Inr (st\<lparr>partition_offsets :=
                            AList.update (msg_partition m) (msg_offset m + 1) (partition_offsets st)\<rparr>)
                else Inr st)))"

text \<open>
  The \<^verbatim>\<open>while keep_polling_current_partition\<close> loop of the consumer assigned to
  partition \<open>p\<close>, which is at position \<open>i\<close> of what the partition delivers. The loop need
  not end: not returning is \<open>None\<close>.
\<close>

partial_function (option) poll_partition ::
  "(nat \<Rightarrow> poll_result) \<Rightarrow> int \<Rightarrow> int \<Rightarrow> nat \<Rightarrow> scan_state \<Rightarrow> call list
     \<Rightarrow> ((error + scan_state) \<times> call list) option" where
  "poll_partition consumer p timestamp_limit i st calls =
     (if keep_polling_current_partition st then
        (case poll_once timestamp_limit (consumer i) st of
           Inl e \<Rightarrow> Some (Inl e, calls @ [ConsumeSingleMessage p (consumer i)])
         | Inr st' \<Rightarrow>
             poll_partition consumer p timestamp_limit (Suc i) st'
               (calls @ [ConsumeSingleMessage p (consumer i)]))
      else Some (Inr st, calls))"

text \<open>The \<^verbatim>\<open>for partition_counter in range(0, len(consumers))\<close> loop.\<close>

fun poll_consumers ::
  "cluster \<Rightarrow> string \<Rightarrow> int \<Rightarrow> int list \<Rightarrow> (int \<times> int) list \<Rightarrow> call list
     \<Rightarrow> ((error + (int \<times> int) list) \<times> call list) option" where
  "poll_consumers cl topic_name timestamp_limit [] offsets calls = Some (Inr offsets, calls)"
| "poll_consumers cl topic_name timestamp_limit (p # ps) offsets calls =
     (case poll_partition (polls cl topic_name p) p timestamp_limit 0
             \<lparr>partition_offsets = offsets, max_retry_count = 5,
              keep_polling_current_partition = True\<rparr> calls of
        None \<Rightarrow> None
      | Some (Inl e, calls') \<Rightarrow> Some (Inl e, calls')
      | Some (Inr st, calls') \<Rightarrow>
          poll_consumers cl topic_name timestamp_limit ps (partition_offsets st) calls')"

text \<open>
  The dictionary \<^verbatim>\<open>{partition.partition_id: 0 for partition in topic.partitions}\<close> and its
  keys, for which the consumers are created in order.
\<close>

definition initial_offsets :: "topic \<Rightarrow> (int \<times> int) list" where
  "initial_offsets t = foldl (\<lambda>d p. AList.update (partition_id p) 0 d) [] (partition_data t)"

definition topic_partitions :: "topic \<Rightarrow> int list" where
  "topic_partitions t = map fst (initial_offsets t)"

definition get_offsets_closest_to_timestamp ::
  "cluster \<Rightarrow> string \<Rightarrow> int \<Rightarrow> ((error + (int \<times> int) list) \<times> call list) option" where
  "get_offsets_closest_to_timestamp cl topic_name timestamp_limit =
     (case get_cluster_topic cl topic_name of
        (Inl e, calls) \<Rightarrow> Some (Inl e, calls)
      | (Inr t, calls) \<Rightarrow>
          (let partition_offsets = initial_offsets t;
               partitions = topic_partitions t
           in poll_consumers cl topic_name timestamp_limit partitions partition_offsets
                (calls @ map (AssignSpecificPartitions topic_name) partitions)))"

section \<open>The scan of one partition, outcome by outcome\<close>

text \<open>
  \<open>run_polls\<close> runs the loop over a finite list of outcomes and returns a result if the
  loop ends exactly when the list is used up: after the last outcome and not before.
\<close>

fun run_polls :: "int \<Rightarrow> poll_result list \<Rightarrow> scan_state \<Rightarrow> (error + scan_state) option" where
  "run_polls L [] st = (if keep_polling_current_partition st then None else Some (Inr st))"
| "run_polls L (r # rs) st =
     (if keep_polling_current_partition st then
        (case poll_once L r st of
           Inl e \<Rightarrow> (if rs = [] then Some (Inl e) else None)
         | Inr st' \<Rightarrow> run_polls L rs st')
      else None)"

lemma upt_add_Suc: "[i..<Suc (i + n)] = i # [Suc i..<Suc (i + n)]"
  by (subst upt_conv_Cons) simp_all

lemma poll_partition_run:
  "run_polls L (map c [i..<i + n]) st = Some r \<Longrightarrow>
   poll_partition c p L i st calls =
     Some (r, calls @ map (\<lambda>j. ConsumeSingleMessage p (c j)) [i..<i + n])"
proof (induction n arbitrary: i st calls)
  case 0
  then show ?case
    by (subst poll_partition.simps) (simp split: if_splits)
next
  case (Suc n)
  from Suc.prems have kp: "keep_polling_current_partition st"
    by (simp add: upt_add_Suc del: upt_Suc split: if_splits)
  show ?case
  proof (cases "poll_once L (c i) st")
    case (Inl e)
    with Suc.prems kp have "n = 0 \<and> r = Inl e"
      by (simp add: upt_add_Suc del: upt_Suc split: if_splits)
    with Inl kp show ?thesis
      by (subst poll_partition.simps) simp
  next
    case (Inr st')
    with Suc.prems kp have "run_polls L (map c [Suc i..<Suc i + n]) st' = Some r"
      by (simp add: upt_add_Suc del: upt_Suc)
    from Suc.IH[OF this, of "calls @ [ConsumeSingleMessage p (c i)]"] Inr kp show ?thesis
      by (subst poll_partition.simps) (simp add: upt_add_Suc del: upt_Suc)
  qed
qed

lemma poll_partition_returns:
  assumes "poll_partition c p L i st calls = Some y"
  shows "\<exists>n. run_polls L (map c [i..<i + n]) st = Some (fst y) \<and>
       snd y = calls @ map (\<lambda>j. ConsumeSingleMessage p (c j)) [i..<i + n]"
proof -
  let ?P = "\<lambda>c p L i st calls y.
    \<exists>n. run_polls L (map c [i..<i + n]) st = Some (fst y) \<and>
        snd y = calls @ map (\<lambda>j. ConsumeSingleMessage p (c j)) [i..<i + n]"
  have "?P c p L i st calls y"
  proof (rule poll_partition.raw_induct[where P = ?P, OF _ assms])
    fix f c p L i st calls y
    assume IH: "\<And>c p L i st calls y. f c p L i st calls = Some y \<Longrightarrow> ?P c p L i st calls y"
      and body: "(if keep_polling_current_partition st then
        (case poll_once L (c i) st of
           Inl e \<Rightarrow> Some (Inl e, calls @ [ConsumeSingleMessage p (c i)])
         | Inr st' \<Rightarrow> f c p L (Suc i) st' (calls @ [ConsumeSingleMessage p (c i)]))
      else Some (Inr st, calls)) = Some y"
    show "?P c p L i st calls y"
    proof (cases "keep_polling_current_partition st")
      case False
      with body have "y = (Inr st, calls)" by simp
      with False show ?thesis by (intro exI[of _ 0]) simp
    next
      case True
      show ?thesis
      proof (cases "poll_once L (c i) st")
        case (Inl e)
        with True body have "y = (Inl e, calls @ [ConsumeSingleMessage p (c i)])" by simp
        with True Inl show ?thesis by (intro exI[of _ 1]) simp
      next
        case (Inr st')
        with True body have "f c p L (Suc i) st' (calls @ [ConsumeSingleMessage p (c i)]) = Some y"
          by simp
        from IH[OF this] obtain n where
          n: "run_polls L (map c [Suc i..<Suc i + n]) st' = Some (fst y)"
             "snd y = (calls @ [ConsumeSingleMessage p (c i)])
                @ map (\<lambda>j. ConsumeSingleMessage p (c j)) [Suc i..<Suc i + n]"
          by blast
        show ?thesis
        proof (intro exI[of _ "Suc n"] conjI)
          show "run_polls L (map c [i..<i + Suc n]) st = Some (fst y)"
            using n(1) True Inr by (simp add: upt_add_Suc del: upt_Suc)
          show "snd y = calls @ map (\<lambda>j. ConsumeSingleMessage p (c j)) [i..<i + Suc n]"
            using n(2) by (simp add: upt_add_Suc del: upt_Suc)
        qed
      qed
    qed
  qed
  then show ?thesis .
qed

definition in_range :: "message \<Rightarrow> bool" where
  "in_range m \<longleftrightarrow>
     - 62135596800 \<le> int_div_1000 (msg_timestamp m) \<and> int_div_1000 (msg_timestamp m) \<le> 253402300799"

definition recorded :: "int \<Rightarrow> message \<Rightarrow> bool" where
  "recorded L m \<longleftrightarrow> int_div_1000 (msg_timestamp m) * 1000000 < L"

fun messages :: "poll_result list \<Rightarrow> message list" where
  "messages [] = []"
| "messages (Message m # rs) = m # messages rs"
| "messages (_ # rs) = messages rs"

fun record_all :: "int \<Rightarrow> message list \<Rightarrow> (int \<times> int) list \<Rightarrow> (int \<times> int) list" where
  "record_all L [] d = d"
| "record_all L (m # ms) d =
     record_all L ms (if recorded L m then AList.update (msg_partition m) (msg_offset m + 1) d else d)"

fun poll_failed :: "poll_result \<Rightarrow> bool" where
  "poll_failed (PollFailed e) = True"
| "poll_failed _ = False"

definition complete_scan :: "int \<Rightarrow> poll_result list \<Rightarrow> bool" where
  "complete_scan b rs \<longleftrightarrow>
     rs \<noteq> [] \<and> EndOfPartitionReached \<notin> set (butlast rs) \<and> \<not> list_ex poll_failed rs \<and>
     int (count_list (butlast rs) MessageEmpty) < b \<and>
     (last rs = EndOfPartitionReached \<or>
      last rs = MessageEmpty \<and> int (count_list rs MessageEmpty) = b)"

lemma complete_scan_Nil: "complete_scan b [] = False"
  by (simp add: complete_scan_def)

lemma complete_scan_Message: "complete_scan b (Message m # rs) = complete_scan b rs"
  by (cases "rs = []") (simp_all add: complete_scan_def)

lemma complete_scan_PollFailed: "complete_scan b (PollFailed e # rs) = False"
  by (simp add: complete_scan_def)

lemma complete_scan_End: "complete_scan b (EndOfPartitionReached # rs) = (rs = [] \<and> 0 < b)"
  by (cases "rs = []") (simp_all add: complete_scan_def)

lemma complete_scan_Empty:
  "complete_scan b (MessageEmpty # rs) = (if rs = [] then b = 1 else complete_scan (b - 1) rs)"
  by (cases "rs = []") (auto simp add: complete_scan_def)

lemma poll_once_Message:
  "poll_once L (Message m) st =
     (if in_range m
      then Inr (if recorded L m
                then st\<lparr>partition_offsets :=
                        AList.update (msg_partition m) (msg_offset m + 1) (partition_offsets st)\<rparr>
                else st)
      else Inl ValueError)"
  by (simp add: poll_once_def fromtimestamp_utc_def in_range_def recorded_def)

lemma run_polls_complete:
  "keep_polling_current_partition st \<Longrightarrow> max_retry_count st = b \<Longrightarrow> 0 < b \<Longrightarrow>
   complete_scan b rs \<Longrightarrow> list_all in_range (messages rs) \<Longrightarrow>
   \<exists>st'. run_polls L rs st = Some (Inr st')"
proof (induction rs arbitrary: st b)
  case Nil
  then show ?case by (simp add: complete_scan_Nil)
next
  case (Cons r rs)
  show ?case
  proof (cases r)
    case (Message m)
    with Cons.prems have cs: "complete_scan b rs" and ir: "in_range m" "list_all in_range (messages rs)"
      by (simp_all add: complete_scan_Message)
    let ?st = "if recorded L m
                then st\<lparr>partition_offsets :=
                        AList.update (msg_partition m) (msg_offset m + 1) (partition_offsets st)\<rparr>
                else st"
    have "keep_polling_current_partition ?st" "max_retry_count ?st = b"
      using Cons.prems by simp_all
    from Cons.IH[OF this \<open>0 < b\<close> cs ir(2)] show ?thesis
      using Message Cons.prems(1) ir(1) by (simp add: poll_once_Message)
  next
    case MessageEmpty
    show ?thesis
    proof (cases "rs = []")
      case True
      with MessageEmpty Cons.prems show ?thesis
        by (simp add: complete_scan_Empty poll_once_def)
    next
      case False
      with MessageEmpty Cons.prems have cs: "complete_scan (b - 1) rs" and b: "1 < b"
        by (auto simp add: complete_scan_Empty complete_scan_def)
      let ?st = "st\<lparr>max_retry_count := max_retry_count st - 1\<rparr>"
      have "keep_polling_current_partition ?st" "max_retry_count ?st = b - 1" "0 < b - 1"
        using Cons.prems b by simp_all
      from Cons.IH[OF this cs] Cons.prems MessageEmpty b show ?thesis
        by (simp add: poll_once_def)
    qed
  next
    case EndOfPartitionReached
    with Cons.prems show ?thesis
      by (simp add: complete_scan_End poll_once_def)
  next
    case (PollFailed e)
    with Cons.prems show ?thesis
      by (simp add: complete_scan_PollFailed)
  qed
qed

lemma run_polls_sound:
  "keep_polling_current_partition st \<Longrightarrow> max_retry_count st = b \<Longrightarrow> 0 < b \<Longrightarrow>
   run_polls L rs st = Some (Inr st') \<Longrightarrow>
   complete_scan b rs \<and> list_all in_range (messages rs) \<and>
   partition_offsets st' = record_all L (messages rs) (partition_offsets st)"
proof (induction rs arbitrary: st b)
  case Nil
  then show ?case by simp
next
  case (Cons r rs)
  show ?case
  proof (cases r)
    case (Message m)
    let ?st = "if recorded L m
                then st\<lparr>partition_offsets :=
                        AList.update (msg_partition m) (msg_offset m + 1) (partition_offsets st)\<rparr>
                else st"
    from Cons.prems Message have ir: "in_range m" and run: "run_polls L rs ?st = Some (Inr st')"
      by (simp_all add: poll_once_Message split: if_splits)
    have "keep_polling_current_partition ?st" "max_retry_count ?st = b"
      using Cons.prems by simp_all
    from Cons.IH[OF this \<open>0 < b\<close> run] ir Message show ?thesis
      by (simp add: complete_scan_Message)
  next
    case MessageEmpty
    let ?st = "st\<lparr>max_retry_count := max_retry_count st - 1\<rparr>"
    show ?thesis
    proof (cases "b = 1")
      case True
      with Cons.prems MessageEmpty have "rs = []" "st' = ?st\<lparr>keep_polling_current_partition := False\<rparr>"
        by (cases rs; simp add: poll_once_def)+
      with True MessageEmpty show ?thesis
        by (simp add: complete_scan_Empty)
    next
      case False
      with Cons.prems have b: "1 < b" by simp
      with Cons.prems MessageEmpty have run: "run_polls L rs ?st = Some (Inr st')"
        by (simp add: poll_once_def)
      have k: "keep_polling_current_partition ?st" "max_retry_count ?st = b - 1" "0 < b - 1"
        using Cons.prems b by simp_all
      from run k(1) have "rs \<noteq> []" by auto
      with Cons.IH[OF k run] MessageEmpty show ?thesis
        by (simp add: complete_scan_Empty)
    qed
  next
    case EndOfPartitionReached
    with Cons.prems have "rs = []" "st' = st\<lparr>keep_polling_current_partition := False\<rparr>"
      by (cases rs; simp add: poll_once_def)+
    with EndOfPartitionReached Cons.prems show ?thesis
      by (simp add: complete_scan_End)
  next
    case (PollFailed e)
    with Cons.prems show ?thesis
      by (simp add: poll_once_def split: if_splits)
  qed
qed

lemma map_of_record_all:
  "map_of (record_all L ms d) p =
     (case filter (\<lambda>m. msg_partition m = p \<and> recorded L m) ms of
        [] \<Rightarrow> map_of d p
      | m # ms' \<Rightarrow> Some (msg_offset (last (m # ms')) + 1))"
proof (induction ms arbitrary: d)
  case Nil
  then show ?case by simp
next
  case (Cons m ms)
  show ?case
    by (simp add: Cons.IH update_conv' split: list.splits)
qed

definition scan_of :: "cluster \<Rightarrow> string \<Rightarrow> int \<Rightarrow> nat \<Rightarrow> poll_result list" where
  "scan_of cl n p k = map (polls cl n p) [0..<k]"

fun scans :: "cluster \<Rightarrow> string \<Rightarrow> int list \<Rightarrow> nat list \<Rightarrow> (int \<times> poll_result) list" where
  "scans cl n (p # ps) (k # ks) = map (Pair p) (scan_of cl n p k) @ scans cl n ps ks"
| "scans cl n _ _ = []"

fun scans_complete :: "cluster \<Rightarrow> string \<Rightarrow> int list \<Rightarrow> nat list \<Rightarrow> bool" where
  "scans_complete cl n [] [] = True"
| "scans_complete cl n (p # ps) (k # ks) =
     (complete_scan 5 (scan_of cl n p k) \<and> list_all in_range (messages (scan_of cl n p k)) \<and>
      scans_complete cl n ps ks)"
| "scans_complete cl n _ _ = False"

lemma messages_append: "messages (xs @ ys) = messages xs @ messages ys"
  by (induction xs rule: messages.induct) simp_all

lemma record_all_append: "record_all L (xs @ ys) d = record_all L ys (record_all L xs d)"
  by (induction xs arbitrary: d) simp_all

lemma map_snd_Pair: "map snd (map (Pair p) xs) = xs"
  by (induction xs) simp_all

lemma poll_consumers_total:
  "scans_complete cl n ps ks \<Longrightarrow>
   poll_consumers cl n L ps offs calls =
     Some (Inr (record_all L (messages (map snd (scans cl n ps ks))) offs),
           calls @ map (\<lambda>(p, r). ConsumeSingleMessage p r) (scans cl n ps ks))"
proof (induction ps arbitrary: ks offs calls)
  case Nil
  then show ?case by (cases ks) simp_all
next
  case (Cons p ps)
  then obtain k ks' where ks: "ks = k # ks'" by (cases ks) simp_all
  let ?st = "\<lparr>partition_offsets = offs, max_retry_count = 5,
              keep_polling_current_partition = True\<rparr>"
  from Cons.prems ks have c: "complete_scan 5 (scan_of cl n p k)"
    "list_all in_range (messages (scan_of cl n p k))" "scans_complete cl n ps ks'"
    by simp_all
  from run_polls_complete[of ?st 5 "scan_of cl n p k" L] c obtain st' where
    run: "run_polls L (scan_of cl n p k) ?st = Some (Inr st')"
    by auto
  from run_polls_sound[OF _ _ _ run] have offs':
    "partition_offsets st' = record_all L (messages (scan_of cl n p k)) offs"
    by simp
  from run have "run_polls L (map (polls cl n p) [0..<0 + k]) ?st = Some (Inr st')"
    by (simp add: scan_of_def)
  from poll_partition_run[OF this, of p calls]
  have pp: "poll_partition (polls cl n p) p L 0 ?st calls =
      Some (Inr st', calls @ map (ConsumeSingleMessage p) (scan_of cl n p k))"
    by (simp add: scan_of_def comp_def)
  show ?case
    using pp offs' Cons.IH[OF c(3)] ks
    by (simp add: messages_append record_all_append map_snd_Pair comp_def)
qed

lemma poll_consumers_returns:
  "poll_consumers cl n L ps offs calls = Some (Inr offs', calls') \<Longrightarrow>
   \<exists>ks. scans_complete cl n ps ks"
proof (induction ps arbitrary: offs calls)
  case Nil
  show ?case by (intro exI[of _ "[]"]) simp
next
  case (Cons p ps)
  let ?st = "\<lparr>partition_offsets = offs, max_retry_count = 5,
              keep_polling_current_partition = True\<rparr>"
  from Cons.prems obtain st1 calls1 where
    pp: "poll_partition (polls cl n p) p L 0 ?st calls = Some (Inr st1, calls1)"
    and rest: "poll_consumers cl n L ps (partition_offsets st1) calls1 = Some (Inr offs', calls')"
    by (auto split: option.splits sum.splits prod.splits)
  from poll_partition_returns[OF pp] obtain k where
    run: "run_polls L (map (polls cl n p) [0..<k]) ?st = Some (Inr st1)"
    by auto
  from run_polls_sound[OF _ _ _ run] have
    "complete_scan 5 (scan_of cl n p k)" "list_all in_range (messages (scan_of cl n p k))"
    by (simp_all add: scan_of_def)
  moreover from Cons.IH[OF rest] obtain ks where "scans_complete cl n ps ks" ..
  ultimately show ?case by (intro exI[of _ "k # ks"]) simp
qed

fun polled :: "call list \<Rightarrow> (int \<times> poll_result) list" where
  "polled [] = []"
| "polled (ConsumeSingleMessage p r # cs) = (p, r) # polled cs"
| "polled (_ # cs) = polled cs"

definition outcomes :: "call list \<Rightarrow> int \<Rightarrow> poll_result list" where
  "outcomes cs p = map snd (filter (\<lambda>x. fst x = p) (polled cs))"

definition consumed :: "call list \<Rightarrow> message list" where
  "consumed cs = messages (map snd (polled cs))"

definition closest_offset :: "int \<Rightarrow> message list \<Rightarrow> int \<Rightarrow> int" where
  "closest_offset L ms p =
     (case filter (\<lambda>m. msg_partition m = p \<and> recorded L m) ms of
        [] \<Rightarrow> 0
      | m # ms' \<Rightarrow> msg_offset (last (m # ms')) + 1)"

lemma polled_append: "polled (xs @ ys) = polled xs @ polled ys"
  by (induction xs rule: polled.induct) simp_all

lemma polled_scans: "polled (map (\<lambda>(p, r). ConsumeSingleMessage p r) xs) = xs"
  by (induction xs) auto

lemma polled_assign: "polled (map (AssignSpecificPartitions n) ps) = []"
  by (induction ps) simp_all

lemma polled_get_client_topic: "get_client_topic cl n ty = (r, cs) \<Longrightarrow> polled cs = []"
  by (cases ty) (auto simp add: get_client_topic_def Let_def split: sum.splits)

lemma polled_get_partition: "get_partition cl n lo hi pid meta = (r, cs) \<Longrightarrow> polled cs = []"
  by (auto simp add: get_partition_def split: option.splits sum.splits if_splits)

lemma polled_partition_loop: "partition_loop cl n lo hi ps = (r, cs) \<Longrightarrow> polled cs = []"
proof (induction ps arbitrary: r cs)
  case Nil
  then show ?case by simp
next
  case (Cons a ps)
  obtain pid meta where a: "a = (pid, meta)" by (cases a)
  obtain r1 cs1 where g: "get_partition cl n lo hi pid meta = (r1, cs1)" by force
  obtain r2 cs2 where l: "partition_loop cl n lo hi ps = (r2, cs2)" by force
  from polled_get_partition[OF g] Cons.IH[OF l] Cons.prems show ?case
    by (auto simp add: a g l polled_append split: sum.splits)
qed

lemma polled_update_from_cluster: "update_from_cluster cl t = (r, cs) \<Longrightarrow> polled cs = []"
proof -
  assume u: "update_from_cluster cl t = (r, cs)"
  obtain r1 cs1 where g1: "get_client_topic cl (name t) Confluent = (r1, cs1)" by force
  obtain r2 cs2 where g2: "get_client_topic cl (name t) PyKafka = (r2, cs2)" by force
  have pl: "\<And>ps r3 cs3. partition_loop cl (name t) (earliest_available_offsets cl (name t))
          (latest_available_offsets cl (name t)) ps = (r3, cs3) \<Longrightarrow> polled cs3 = []"
    by (rule polled_partition_loop)
  from u polled_get_client_topic[OF g1] polled_get_client_topic[OF g2] show ?thesis
    by (auto simp add: update_from_cluster_def get_partition_data_def Let_def polled_append g1 g2
          split: prod.splits sum.splits ClientType.splits dest: pl)
qed

lemma polled_get_cluster_topic: "get_cluster_topic cl n = (r, cs) \<Longrightarrow> polled cs = []"
  by (simp add: get_cluster_topic_def polled_update_from_cluster)

lemma foldl_update_keys:
  "map_of (foldl (\<lambda>d p. AList.update (partition_id p) (0::int) d) d xs) q =
     (if q \<in> partition_id ` set xs then Some 0 else map_of d q)"
  by (induction xs arbitrary: d) (auto simp add: update_conv')

lemma foldl_update_distinct:
  "distinct (map fst d) \<Longrightarrow>
   distinct (map fst (foldl (\<lambda>d p. AList.update (partition_id p) (0::int) d) d xs))"
  by (induction xs arbitrary: d) (simp_all add: distinct_update)

lemma map_of_initial_offsets:
  "map_of (initial_offsets t) q = (if q \<in> partition_id ` set (partition_data t) then Some 0 else None)"
  by (simp add: initial_offsets_def foldl_update_keys)

lemma distinct_topic_partitions: "distinct (topic_partitions t)"
  by (simp add: topic_partitions_def initial_offsets_def foldl_update_distinct)

lemma set_topic_partitions: "set (topic_partitions t) = partition_id ` set (partition_data t)"
proof -
  have "set (topic_partitions t) = dom (map_of (initial_offsets t))"
    by (simp add: topic_partitions_def dom_map_of_conv_image_fst)
  also have "\<dots> = partition_id ` set (partition_data t)"
    by (auto simp add: dom_def map_of_initial_offsets)
  finally show ?thesis .
qed

lemma scans_keys: "fst ` set (scans cl n ps ks) \<subseteq> set ps"
  by (induction cl n ps ks rule: scans.induct) auto

lemma filter_scans_other:
  "p \<notin> set ps \<Longrightarrow> filter (\<lambda>x. fst x = p) (scans cl n ps ks) = []"
  using scans_keys[of cl n ps ks] by (auto simp add: filter_empty_conv)

lemma scans_of_partition:
  "distinct ps \<Longrightarrow> scans_complete cl n ps ks \<Longrightarrow> p \<in> set ps \<Longrightarrow>
   \<exists>k. map snd (filter (\<lambda>x. fst x = p) (scans cl n ps ks)) = scan_of cl n p k \<and>
       complete_scan 5 (scan_of cl n p k)"
proof (induction cl n ps ks rule: scans_complete.induct)
  case (2 cl n q ps k ks)
  show ?case
  proof (cases "p = q")
    case True
    with 2 have "p \<notin> set ps" by simp
    from filter_scans_other[OF this] True 2(3) show ?thesis
      by (intro exI[of _ k]) (simp add: filter_map comp_def map_snd_Pair)
  next
    case False
    with 2 have "\<exists>k. map snd (filter (\<lambda>x. fst x = p) (scans cl n ps ks)) = scan_of cl n p k \<and>
       complete_scan 5 (scan_of cl n p k)" by simp
    with False show ?thesis by (simp add: filter_map comp_def)
  qed
qed simp_all

lemma get_offsets_total:
  assumes "get_cluster_topic cl n = (Inr t, cs)"
    and "scans_complete cl n (topic_partitions t) ks"
  shows "get_offsets_closest_to_timestamp cl n L =
     Some (Inr (record_all L (messages (map snd (scans cl n (topic_partitions t) ks))) (initial_offsets t)),
           cs @ map (AssignSpecificPartitions n) (topic_partitions t)
              @ map (\<lambda>(p, r). ConsumeSingleMessage p r) (scans cl n (topic_partitions t) ks))"
  using assms(1) poll_consumers_total[OF assms(2)]
  by (simp add: get_offsets_closest_to_timestamp_def Let_def)

lemma get_offsets_returns:
  assumes "get_cluster_topic cl n = (Inr t, cs)"
    and "get_offsets_closest_to_timestamp cl n L = Some (Inr offsets, calls)"
  shows "\<exists>ks. scans_complete cl n (topic_partitions t) ks"
  using assms poll_consumers_returns[of cl n L "topic_partitions t" "initial_offsets t"
      "cs @ map (AssignSpecificPartitions n) (topic_partitions t)" offsets calls]
  by (simp add: get_offsets_closest_to_timestamp_def Let_def)

lemma get_offsets_result:
  assumes topic: "get_cluster_topic cl n = (Inr t, cs)"
    and ret: "get_offsets_closest_to_timestamp cl n L = Some (Inr offsets, calls)"
  shows "\<exists>ks. scans_complete cl n (topic_partitions t) ks \<and>
      offsets = record_all L (consumed calls) (initial_offsets t) \<and>
      polled calls = scans cl n (topic_partitions t) ks"
proof -
  from get_offsets_returns[OF topic ret] obtain ks where
    ks: "scans_complete cl n (topic_partitions t) ks" ..
  from get_offsets_total[OF topic ks, of L] ret have
    o: "offsets = record_all L (messages (map snd (scans cl n (topic_partitions t) ks))) (initial_offsets t)"
    and c: "calls = cs @ map (AssignSpecificPartitions n) (topic_partitions t)
              @ map (\<lambda>(p, r). ConsumeSingleMessage p r) (scans cl n (topic_partitions t) ks)"
    by simp_all
  from c polled_get_cluster_topic[OF topic] have
    "polled calls = scans cl n (topic_partitions t) ks"
    by (simp add: polled_append polled_assign polled_scans)
  with ks o show ?thesis by (auto simp add: consumed_def)
qed

lemma complete_scan_last:
  "complete_scan b rs \<Longrightarrow> last rs = EndOfPartitionReached \<or> last rs = MessageEmpty"
  by (auto simp add: complete_scan_def)

lemma length_scan_of: "length (scan_of cl n p k) = k"
  by (simp add: scan_of_def)

lemma get_offsets_scan:
  assumes topic: "get_cluster_topic cl n = (Inr t, cs)"
    and ret: "get_offsets_closest_to_timestamp cl n L = Some (Inr offsets, calls)"
    and p: "p \<in> set (topic_partitions t)"
  shows "complete_scan 5 (outcomes calls p) \<and>
         outcomes calls p = scan_of cl n p (length (outcomes calls p))"
proof -
  from get_offsets_result[OF topic ret] obtain ks where
    ks: "scans_complete cl n (topic_partitions t) ks"
    and pc: "polled calls = scans cl n (topic_partitions t) ks" by blast
  from scans_of_partition[OF distinct_topic_partitions ks p] pc obtain k where
    "outcomes calls p = scan_of cl n p k" "complete_scan 5 (scan_of cl n p k)"
    by (auto simp add: outcomes_def)
  then show ?thesis by (simp add: length_scan_of)
qed

lemma get_offsets_value:
  assumes topic: "get_cluster_topic cl n = (Inr t, cs)"
    and ret: "get_offsets_closest_to_timestamp cl n L = Some (Inr offsets, calls)"
    and p: "p \<in> set (topic_partitions t)"
  shows "map_of offsets p = Some (closest_offset L (consumed calls) p)"
proof -
  from get_offsets_result[OF topic ret] have
    "offsets = record_all L (consumed calls) (initial_offsets t)" by blast
  moreover from p have "map_of (initial_offsets t) p = Some 0"
    by (simp add: map_of_initial_offsets set_topic_partitions)
  ultimately show ?thesis
    by (simp add: map_of_record_all closest_offset_def split: list.splits)
qed

definition demo_meta :: partition_meta where
  "demo_meta = \<lparr>meta_isrs = [1], meta_leader = 1, meta_replicas = [1]\<rparr>"

definition feed :: "poll_result list \<Rightarrow> nat \<Rightarrow> poll_result" where
  "feed rs i = (if i < length rs then rs ! i else MessageEmpty)"

definition demo_cluster :: "(int \<Rightarrow> nat \<Rightarrow> poll_result) \<Rightarrow> cluster" where
  "demo_cluster consumer =
     \<lparr>all_topics = [],
      topic_lookup = (\<lambda>n. \<lparr>md_topic = n,
                             md_error = (if n = ''t1'' then None else Some 3),
                             md_partitions = (if n = ''t1'' then [(0, demo_meta), (1, demo_meta)] else [])\<rparr>),
      earliest_available_offsets = (\<lambda>n. [(0, 0), (1, 0)]),
      latest_available_offsets = (\<lambda>n. [(0, 3), (1, 0)]),
      record_at = (\<lambda>n off p. Inr \<lparr>msg_partition = p, msg_offset = off, msg_timestamp = 2500\<rparr>),
      topic_config = (\<lambda>n. [(''cleanup.policy'', ''delete'')]),
      polls = (\<lambda>n. consumer),
      create_future = (\<lambda>t. Done),
      alter_future = (\<lambda>n c. Done),
      delete_future = (\<lambda>n. Done)\<rparr>"

definition demo_topic :: topic where
  "demo_topic =
     \<lparr>name = ''t1'', num_partitions = None, replication_factor = None,
      config = [(''cleanup.policy'', ''delete'')],
      partition_data =
        [\<lparr>partition_id = 0, low_watermark = 0, high_watermark = 3, partition_isrs = [1],
          partition_leader = 1, partition_replicas = [1], latest_timestamp = Some (5 / 2)\<rparr>,
         \<lparr>partition_id = 1, low_watermark = 0, high_watermark = 0, partition_isrs = [1],
          partition_leader = 1, partition_replicas = [1], latest_timestamp = None\<rparr>],
      is_only_local = False\<rparr>"

definition demo_fetch :: "call list" where
  "demo_fetch =
     [ListTopics (Some ''t1''), ListTopics (Some ''t1''), PyKafkaTopics ''t1'',
      EarliestAvailableOffsets ''t1'', LatestAvailableOffsets ''t1'',
      OpenMessageConsumer ''t1'', Consume ''t1'' 2 0, RetrieveConfig ''t1'']"

lemma demo_get_cluster_topic:
  "get_cluster_topic (demo_cluster c) ''t1'' = (Inr demo_topic, demo_fetch)"
  by (simp add: get_cluster_topic_def update_from_cluster_def get_client_topic_def
        raise_for_kafka_error_def get_partition_data_def get_partition_def demo_cluster_def
        demo_meta_def demo_topic_def demo_fetch_def Topic_def Let_def)

lemma demo_partitions: "topic_partitions demo_topic = [0, 1]"
  by (simp add: topic_partitions_def initial_offsets_def demo_topic_def)

lemma demo_initial_offsets: "initial_offsets demo_topic = [(0, 0), (1, 0)]"
  by (simp add: initial_offsets_def demo_topic_def)

definition demo_scan :: "int \<Rightarrow> nat \<Rightarrow> poll_result" where
  "demo_scan p =
     (if p = 0
      then feed [Message \<lparr>msg_partition = 0, msg_offset = 0, msg_timestamp = 1000\<rparr>,
                 Message \<lparr>msg_partition = 0, msg_offset = 1, msg_timestamp = 5000\<rparr>,
                 Message \<lparr>msg_partition = 0, msg_offset = 2, msg_timestamp = 2000\<rparr>,
                 EndOfPartitionReached]
      else feed [])"

lemma demo_scan_of_0:
  "scan_of (demo_cluster demo_scan) ''t1'' 0 4 =
     [Message \<lparr>msg_partition = 0, msg_offset = 0, msg_timestamp = 1000\<rparr>,
      Message \<lparr>msg_partition = 0, msg_offset = 1, msg_timestamp = 5000\<rparr>,
      Message \<lparr>msg_partition = 0, msg_offset = 2, msg_timestamp = 2000\<rparr>,
      EndOfPartitionReached]"
  by (simp add: scan_of_def demo_cluster_def demo_scan_def feed_def upt_conv_Cons)

lemma demo_scan_of_1:
  "scan_of (demo_cluster demo_scan) ''t1'' 1 5 =
     [MessageEmpty, MessageEmpty, MessageEmpty, MessageEmpty, MessageEmpty]"
  by (simp add: scan_of_def demo_cluster_def demo_scan_def feed_def upt_conv_Cons)

lemma demo_scans_complete:
  "scans_complete (demo_cluster demo_scan) ''t1'' (topic_partitions demo_topic) [4, 5]"
  by (simp add: demo_partitions demo_scan_of_0 demo_scan_of_1 complete_scan_def in_range_def
        int_div_1000_def)

definition demo_calls :: "call list" where
  "demo_calls =
     demo_fetch @
     [AssignSpecificPartitions ''t1'' 0, AssignSpecificPartitions ''t1'' 1,
      ConsumeSingleMessage 0 (Message \<lparr>msg_partition = 0, msg_offset = 0, msg_timestamp = 1000\<rparr>),
      ConsumeSingleMessage 0 (Message \<lparr>msg_partition = 0, msg_offset = 1, msg_timestamp = 5000\<rparr>),
      ConsumeSingleMessage 0 (Message \<lparr>msg_partition = 0, msg_offset = 2, msg_timestamp = 2000\<rparr>),
      ConsumeSingleMessage 0 EndOfPartitionReached,
      ConsumeSingleMessage 1 MessageEmpty, ConsumeSingleMessage 1 MessageEmpty,
      ConsumeSingleMessage 1 MessageEmpty, ConsumeSingleMessage 1 MessageEmpty,
      ConsumeSingleMessage 1 MessageEmpty]"

lemma demo_get_offsets:
  "get_offsets_closest_to_timestamp (demo_cluster demo_scan) ''t1'' 3000000 =
     Some (Inr [(0, 3), (1, 0)], demo_calls)"
  by (simp add: get_offsets_total[OF demo_get_cluster_topic demo_scans_complete]
        demo_partitions demo_initial_offsets demo_scan_of_0 demo_scan_of_1 demo_calls_def
        recorded_def int_div_1000_def)

text \<open>
  C1, as amended. For every call of \<^verbatim>\<open>get_offsets_closest_to_timestamp\<close> that returns
  offsets and every partition of the topic, the offset returned for the partition is the
  offset plus one of the last message consumed from that partition whose timestamp,
  truncated to whole seconds, is strictly earlier than the target instant, and 0 if there
  is no such message. The scan of the partition takes what the partition delivers in
  order and ends on an end of partition or on a timeout, never on a message. The call
  returns offsets exactly when the scan of every partition reaches such an end.
\<close>

theorem get_offsets_closest_to_timestamp_recorded:
  assumes "get_cluster_topic cl n = (Inr t, cs)"
    and "p \<in> partition_id ` set (partition_data t)"
  shows "((\<exists>offsets calls. get_offsets_closest_to_timestamp cl n L = Some (Inr offsets, calls)) \<longleftrightarrow>
          (\<exists>ks. scans_complete cl n (topic_partitions t) ks)) \<and>
         (get_offsets_closest_to_timestamp cl n L = Some (Inr offsets, calls) \<longrightarrow>
            map_of offsets p = Some (closest_offset L (consumed calls) p) \<and>
            outcomes calls p = scan_of cl n p (length (outcomes calls p)) \<and>
            outcomes calls p \<noteq> [] \<and>
            (last (outcomes calls p) = EndOfPartitionReached \<or>
             last (outcomes calls p) = MessageEmpty))"
proof (intro conjI impI iffI)
  assume "\<exists>offsets calls. get_offsets_closest_to_timestamp cl n L = Some (Inr offsets, calls)"
  then show "\<exists>ks. scans_complete cl n (topic_partitions t) ks"
    using get_offsets_returns[OF assms(1)] by blast
next
  assume "\<exists>ks. scans_complete cl n (topic_partitions t) ks"
  then show "\<exists>offsets calls. get_offsets_closest_to_timestamp cl n L = Some (Inr offsets, calls)"
    using get_offsets_total[OF assms(1)] by blast
next
  assume ret: "get_offsets_closest_to_timestamp cl n L = Some (Inr offsets, calls)"
  from assms(2) have p: "p \<in> set (topic_partitions t)"
    by (simp add: set_topic_partitions)
  from get_offsets_value[OF assms(1) ret p]
  show "map_of offsets p = Some (closest_offset L (consumed calls) p)" .
  from get_offsets_scan[OF assms(1) ret p]
  have c: "complete_scan 5 (outcomes calls p)"
    and s: "outcomes calls p = scan_of cl n p (length (outcomes calls p))" by simp_all
  from s show "outcomes calls p = scan_of cl n p (length (outcomes calls p))" .
  from c show "outcomes calls p \<noteq> []" by (simp add: complete_scan_def)
  from complete_scan_last[OF c]
  show "last (outcomes calls p) = EndOfPartitionReached \<or> last (outcomes calls p) = MessageEmpty" .
qed

theorem get_offsets_closest_to_timestamp_recorded_witness:
  "get_offsets_closest_to_timestamp (demo_cluster demo_scan) ''t1'' 3000000 =
     Some (Inr [(0, 3), (1, 0)], demo_calls) \<and>
   closest_offset 3000000 (consumed demo_calls) 0 = 3 \<and>
   last (outcomes demo_calls 0) = EndOfPartitionReached"
proof -
  have p: "0 \<in> partition_id ` set (partition_data demo_topic)"
    by (simp add: demo_topic_def)
  note th = get_offsets_closest_to_timestamp_recorded[OF demo_get_cluster_topic[of demo_scan] p,
      where L = 3000000 and offsets = "[(0, 3), (1, 0)]" and calls = demo_calls]
  from conjunct2[OF th, THEN mp, OF demo_get_offsets]
  have "map_of [(0, 3), (1, 0)] (0::int) = Some (closest_offset 3000000 (consumed demo_calls) 0)"
    and "last (outcomes demo_calls 0) = EndOfPartitionReached \<or>
         last (outcomes demo_calls 0) = MessageEmpty"
    by simp_all
  moreover have "last (outcomes demo_calls 0) \<noteq> MessageEmpty"
    by (simp add: outcomes_def demo_calls_def demo_fetch_def)
  ultimately show ?thesis
    using demo_get_offsets by simp
qed

definition strictly_earlier :: "int \<Rightarrow> message \<Rightarrow> bool" where
  "strictly_earlier L m \<longleftrightarrow> msg_timestamp m * 1000 < L"

definition claimed_offset :: "int \<Rightarrow> message list \<Rightarrow> int \<Rightarrow> int" where
  "claimed_offset L ms p =
     (case filter (\<lambda>m. msg_partition m = p \<and> strictly_earlier L m) ms of
        [] \<Rightarrow> 0
      | m # ms' \<Rightarrow> msg_offset (last (m # ms')) + 1)"

definition subsecond_scan :: "int \<Rightarrow> nat \<Rightarrow> poll_result" where
  "subsecond_scan p =
     (if p = 0
      then feed [Message \<lparr>msg_partition = 0, msg_offset = 0, msg_timestamp = 1500\<rparr>,
                 EndOfPartitionReached]
      else feed [])"

definition subsecond_calls :: "call list" where
  "subsecond_calls =
     demo_fetch @
     [AssignSpecificPartitions ''t1'' 0, AssignSpecificPartitions ''t1'' 1,
      ConsumeSingleMessage 0 (Message \<lparr>msg_partition = 0, msg_offset = 0, msg_timestamp = 1500\<rparr>),
      ConsumeSingleMessage 0 EndOfPartitionReached,
      ConsumeSingleMessage 1 MessageEmpty, ConsumeSingleMessage 1 MessageEmpty,
      ConsumeSingleMessage 1 MessageEmpty, ConsumeSingleMessage 1 MessageEmpty,
      ConsumeSingleMessage 1 MessageEmpty]"

lemma subsecond_scan_of_0:
  "scan_of (demo_cluster subsecond_scan) ''t1'' 0 2 =
     [Message \<lparr>msg_partition = 0, msg_offset = 0, msg_timestamp = 1500\<rparr>, EndOfPartitionReached]"
  by (simp add: scan_of_def demo_cluster_def subsecond_scan_def feed_def upt_conv_Cons)

lemma subsecond_scan_of_1:
  "scan_of (demo_cluster subsecond_scan) ''t1'' 1 5 =
     [MessageEmpty, MessageEmpty, MessageEmpty, MessageEmpty, MessageEmpty]"
  by (simp add: scan_of_def demo_cluster_def subsecond_scan_def feed_def upt_conv_Cons)

lemma subsecond_scans_complete:
  "scans_complete (demo_cluster subsecond_scan) ''t1'' (topic_partitions demo_topic) [2, 5]"
  by (simp add: demo_partitions subsecond_scan_of_0 subsecond_scan_of_1 complete_scan_def
        in_range_def int_div_1000_def)

text \<open>
  C1 as it is stated fails: a message stamped 1.5 s is not strictly earlier than the target
  instant 1.2 s, so the claim gives partition 0 the default 0, and the code records 1,
  since it compares the second 1 of the message with the target.
\<close>

theorem get_offsets_closest_to_timestamp_counterexample:
  "get_offsets_closest_to_timestamp (demo_cluster subsecond_scan) ''t1'' 1200000 =
     Some (Inr [(0, 1), (1, 0)], subsecond_calls) \<and>
   claimed_offset 1200000 (consumed subsecond_calls) 0 = 0"
  by (simp add: get_offsets_total[OF demo_get_cluster_topic subsecond_scans_complete]
        demo_partitions demo_initial_offsets subsecond_scan_of_0 subsecond_scan_of_1
        subsecond_calls_def recorded_def int_div_1000_def claimed_offset_def consumed_def
        demo_fetch_def strictly_earlier_def)

definition quiet :: "(nat \<Rightarrow> poll_result) \<Rightarrow> bool" where
  "quiet c \<longleftrightarrow> (\<forall>i. c i = MessageEmpty \<or> c i = EndOfPartitionReached)"

lemma run_polls_retries:
  "run_polls L rs st = Some (Inr st') \<Longrightarrow>
   max_retry_count st' = max_retry_count st - int (count_list rs MessageEmpty)"
proof (induction rs arbitrary: st)
  case Nil
  then show ?case by (simp split: if_splits)
next
  case (Cons r rs)
  then show ?case
    by (cases r)
       (auto simp add: poll_once_Message poll_once_def Let_def split: if_splits sum.splits)
qed

lemma quiet_stops:
  "quiet c \<Longrightarrow> 0 < b \<Longrightarrow>
   \<exists>k. k \<le> b \<and> complete_scan (int b) (map c [i..<i + k]) \<and> messages (map c [i..<i + k]) = []"
proof (induction b arbitrary: i)
  case 0
  then show ?case by simp
next
  case (Suc b)
  from Suc.prems(1) have ci: "c i = MessageEmpty \<or> c i = EndOfPartitionReached"
    by (simp add: quiet_def)
  show ?case
  proof (cases "c i = EndOfPartitionReached \<or> b = 0")
    case True
    with ci show ?thesis
      by (intro exI[of _ 1]) (auto simp add: complete_scan_End complete_scan_Empty)
  next
    case False
    with ci have me: "c i = MessageEmpty" and b: "0 < b" by simp_all
    from Suc.IH[OF Suc.prems(1) b, of "Suc i"] obtain k where
      k: "k \<le> b" "complete_scan (int b) (map c [Suc i..<Suc i + k])"
         "messages (map c [Suc i..<Suc i + k]) = []" by blast
    from k(2) have ne: "map c [Suc i..<Suc i + k] \<noteq> []"
      by (cases k) (simp_all add: complete_scan_Nil)
    have u: "map c [i..<i + Suc k] = c i # map c [Suc i..<Suc i + k]"
      by (simp add: upt_add_Suc del: upt_Suc)
    show ?thesis
    proof (intro exI[of _ "Suc k"] conjI)
      show "Suc k \<le> Suc b" using k(1) by simp
      show "complete_scan (int (Suc b)) (map c [i..<i + Suc k])"
        unfolding u me using ne k(2) by (simp add: complete_scan_Empty)
      show "messages (map c [i..<i + Suc k]) = []"
        unfolding u me using k(3) by simp
    qed
  qed
qed

lemma quiet_scans:
  "\<forall>p\<in>set ps. quiet (polls cl n p) \<Longrightarrow>
   \<exists>ks. scans_complete cl n ps ks \<and> messages (map snd (scans cl n ps ks)) = []"
proof (induction ps)
  case Nil
  show ?case by (intro exI[of _ "[]"]) simp
next
  case (Cons p ps)
  then obtain ks where ks: "scans_complete cl n ps ks" "messages (map snd (scans cl n ps ks)) = []"
    by auto
  from Cons.prems have "quiet (polls cl n p)" by simp
  from quiet_stops[OF this, of 5 0] obtain k where
    k: "complete_scan 5 (scan_of cl n p k)" "messages (scan_of cl n p k) = []"
    by (auto simp add: scan_of_def)
  with ks show ?case
    by (intro exI[of _ "k # ks"]) (simp add: messages_append map_snd_Pair comp_def)
qed

lemma count_list_all: "\<forall>r\<in>set xs. r = a \<Longrightarrow> count_list xs a = length xs"
  by (induction xs) simp_all

lemma complete_quiet_length:
  assumes "complete_scan b rs" and "\<forall>r\<in>set rs. r = MessageEmpty \<or> r = EndOfPartitionReached"
  shows "int (length rs) \<le> b"
proof -
  from assms(1) have ne: "rs \<noteq> []" and noeof: "EndOfPartitionReached \<notin> set (butlast rs)"
    and cnt: "int (count_list (butlast rs) MessageEmpty) < b"
    by (simp_all add: complete_scan_def)
  have "\<forall>r\<in>set (butlast rs). r = MessageEmpty"
    using assms(2) noeof by (metis in_set_butlastD)
  then have "count_list (butlast rs) MessageEmpty = length (butlast rs)"
    by (rule count_list_all)
  with cnt ne show ?thesis by (cases rs) (simp_all split: if_splits)
qed

text \<open>
  C2. A timeout of \<^verbatim>\<open>consume_single_message\<close> takes one from the retry budget of the
  partition and raises nothing, and ends the scan of the partition when the budget is used
  up; an end of partition ends the scan and raises nothing. So when the topic is fetched
  and its partitions are quiet (they deliver timeouts and ends of partition only), the call
  returns offsets, 0 for every partition, after at most 5 polls of each partition, the
  initial budget.
\<close>

theorem get_offsets_quiet_partitions:
  assumes "get_cluster_topic cl n = (Inr t, cs)"
    and "\<forall>p\<in>partition_id ` set (partition_data t). quiet (polls cl n p)"
  shows "(\<exists>offsets calls.
            get_offsets_closest_to_timestamp cl n L = Some (Inr offsets, calls) \<and>
            (\<forall>p\<in>partition_id ` set (partition_data t).
                map_of offsets p = Some 0 \<and> complete_scan 5 (outcomes calls p) \<and>
                length (outcomes calls p) \<le> 5)) \<and>
         poll_once L MessageEmpty st =
           Inr (st\<lparr>max_retry_count := max_retry_count st - 1,
                   keep_polling_current_partition :=
                     keep_polling_current_partition st \<and> 0 < max_retry_count st - 1\<rparr>) \<and>
         poll_once L EndOfPartitionReached st = Inr (st\<lparr>keep_polling_current_partition := False\<rparr>)"
proof (intro conjI)
  from assms(2) have "\<forall>p\<in>set (topic_partitions t). quiet (polls cl n p)"
    by (simp add: set_topic_partitions)
  from quiet_scans[OF this] obtain ks where
    ks: "scans_complete cl n (topic_partitions t) ks"
    and none: "messages (map snd (scans cl n (topic_partitions t) ks)) = []" by blast
  define calls where "calls = cs @ map (AssignSpecificPartitions n) (topic_partitions t)
              @ map (\<lambda>(p, r). ConsumeSingleMessage p r) (scans cl n (topic_partitions t) ks)"
  from get_offsets_total[OF assms(1) ks, of L] none
  have ret: "get_offsets_closest_to_timestamp cl n L = Some (Inr (initial_offsets t), calls)"
    by (simp add: calls_def)
  have "map_of (initial_offsets t) p = Some 0 \<and> complete_scan 5 (outcomes calls p) \<and>
        length (outcomes calls p) \<le> 5"
    if p: "p \<in> partition_id ` set (partition_data t)" for p
  proof -
    from p have p': "p \<in> set (topic_partitions t)" by (simp add: set_topic_partitions)
    from get_offsets_scan[OF assms(1) ret p']
    have c: "complete_scan 5 (outcomes calls p)"
      and s: "outcomes calls p = scan_of cl n p (length (outcomes calls p))" by simp_all
    from assms(2) p have "quiet (polls cl n p)" by blast
    then have "\<forall>r\<in>set (scan_of cl n p (length (outcomes calls p))).
        r = MessageEmpty \<or> r = EndOfPartitionReached"
      by (auto simp add: scan_of_def quiet_def)
    with s have "\<forall>r\<in>set (outcomes calls p). r = MessageEmpty \<or> r = EndOfPartitionReached"
      by simp
    from complete_quiet_length[OF c this] have "length (outcomes calls p) \<le> 5" by simp
    with c p show ?thesis by (simp add: map_of_initial_offsets)
  qed
  with ret show "\<exists>offsets calls.
            get_offsets_closest_to_timestamp cl n L = Some (Inr offsets, calls) \<and>
            (\<forall>p\<in>partition_id ` set (partition_data t).
                map_of offsets p = Some 0 \<and> complete_scan 5 (outcomes calls p) \<and>
                length (outcomes calls p) \<le> 5)"
    by blast
next
  show "poll_once L MessageEmpty st =
           Inr (st\<lparr>max_retry_count := max_retry_count st - 1,
                   keep_polling_current_partition :=
                     keep_polling_current_partition st \<and> 0 < max_retry_count st - 1\<rparr>)"
    by (cases "0 < max_retry_count st - 1") (simp_all add: poll_once_def Let_def)
next
  show "poll_once L EndOfPartitionReached st = Inr (st\<lparr>keep_polling_current_partition := False\<rparr>)"
    by (simp add: poll_once_def)
qed

definition quiet_scan :: "int \<Rightarrow> nat \<Rightarrow> poll_result" where
  "quiet_scan p = (if p = 0 then feed [MessageEmpty, EndOfPartitionReached] else feed [])"

definition quiet_calls :: "call list" where
  "quiet_calls =
     demo_fetch @
     [AssignSpecificPartitions ''t1'' 0, AssignSpecificPartitions ''t1'' 1,
      ConsumeSingleMessage 0 MessageEmpty, ConsumeSingleMessage 0 EndOfPartitionReached,
      ConsumeSingleMessage 1 MessageEmpty, ConsumeSingleMessage 1 MessageEmpty,
      ConsumeSingleMessage 1 MessageEmpty, ConsumeSingleMessage 1 MessageEmpty,
      ConsumeSingleMessage 1 MessageEmpty]"

lemma quiet_scan_of_0:
  "scan_of (demo_cluster quiet_scan) ''t1'' 0 2 = [MessageEmpty, EndOfPartitionReached]"
  by (simp add: scan_of_def demo_cluster_def quiet_scan_def feed_def upt_conv_Cons)

lemma quiet_scan_of_1:
  "scan_of (demo_cluster quiet_scan) ''t1'' 1 5 =
     [MessageEmpty, MessageEmpty, MessageEmpty, MessageEmpty, MessageEmpty]"
  by (simp add: scan_of_def demo_cluster_def quiet_scan_def feed_def upt_conv_Cons)

lemma quiet_scans_complete:
  "scans_complete (demo_cluster quiet_scan) ''t1'' (topic_partitions demo_topic) [2, 5]"
  by (simp add: demo_partitions quiet_scan_of_0 quiet_scan_of_1 complete_scan_def)

lemma quiet_get_offsets:
  "get_offsets_closest_to_timestamp (demo_cluster quiet_scan) ''t1'' 3000000 =
     Some (Inr [(0, 0), (1, 0)], quiet_calls)"
  by (simp add: get_offsets_total[OF demo_get_cluster_topic quiet_scans_complete]
        demo_partitions demo_initial_offsets quiet_scan_of_0 quiet_scan_of_1 quiet_calls_def)

theorem get_offsets_quiet_partitions_witness:
  "get_offsets_closest_to_timestamp (demo_cluster quiet_scan) ''t1'' 3000000 =
     Some (Inr [(0, 0), (1, 0)], quiet_calls) \<and>
   outcomes quiet_calls 0 = [MessageEmpty, EndOfPartitionReached] \<and>
   complete_scan 5 (outcomes quiet_calls 1) \<and> length (outcomes quiet_calls 1) = 5"
proof -
  have q: "\<forall>p\<in>partition_id ` set (partition_data demo_topic).
      quiet (polls (demo_cluster quiet_scan) ''t1'' p)"
    by (simp add: demo_topic_def demo_cluster_def quiet_def quiet_scan_def feed_def nth_Cons'
          less_Suc_eq)
  from get_offsets_quiet_partitions[OF demo_get_cluster_topic[of quiet_scan] q,
      where L = 3000000]
  obtain offsets calls where
    "get_offsets_closest_to_timestamp (demo_cluster quiet_scan) ''t1'' 3000000 =
       Some (Inr offsets, calls)"
    and "\<forall>p\<in>partition_id ` set (partition_data demo_topic).
            map_of offsets p = Some 0 \<and> complete_scan 5 (outcomes calls p) \<and>
            length (outcomes calls p) \<le> 5"
    by blast
  with quiet_get_offsets have "complete_scan 5 (outcomes quiet_calls 1)"
    by (simp add: demo_topic_def)
  then show ?thesis
    using quiet_get_offsets by (simp add: outcomes_def quiet_calls_def demo_fetch_def)
qed

definition silent_cluster :: cluster where
  "silent_cluster = (demo_cluster (\<lambda>p. feed []))\<lparr>record_at := (\<lambda>n off p. Inl (- 185))\<rparr>"

text \<open>
  C2 as it is stated fails: before the scan, the call fetches the topic, and the fetch
  consumes the last record of every non-empty partition outside the loop that handles the
  timeouts. When that consume times out on a partition that delivers nothing, the error
  goes through to the caller.
\<close>

theorem get_offsets_quiet_partitions_counterexample:
  "quiet (polls silent_cluster ''t1'' 0) \<and> quiet (polls silent_cluster ''t1'' 1) \<and>
   get_offsets_closest_to_timestamp silent_cluster ''t1'' 3000000 =
     Some (Inl (KafkaException (- 185)),
           [ListTopics (Some ''t1''), ListTopics (Some ''t1''), PyKafkaTopics ''t1'',
            EarliestAvailableOffsets ''t1'', LatestAvailableOffsets ''t1'',
            OpenMessageConsumer ''t1'', Consume ''t1'' 2 0])"
  by (simp add: get_offsets_closest_to_timestamp_def get_cluster_topic_def update_from_cluster_def
        get_client_topic_def get_partition_data_def get_partition_def raise_for_kafka_error_def
        silent_cluster_def demo_cluster_def demo_meta_def Topic_def Let_def quiet_def feed_def)

lemma scan_of_Suc: "scan_of cl n p (Suc k) = scan_of cl n p k @ [polls cl n p k]"
  by (simp add: scan_of_def)

lemma scan_of_prefix:
  assumes "j \<le> m"
  shows "\<exists>rest. scan_of cl n p m = scan_of cl n p j @ rest"
proof -
  from assms obtain d where "m = j + d" using le_Suc_ex by blast
  with upt_add_eq_append[of 0 j d]
  have "scan_of cl n p m = scan_of cl n p j @ map (polls cl n p) [j..<j + d]"
    by (simp add: scan_of_def)
  then show ?thesis ..
qed

lemma count_list_append: "count_list (xs @ ys) a = count_list xs a + count_list ys a"
  by (induction xs) simp_all

lemma count_scan_of_mono:
  "j \<le> m \<Longrightarrow> count_list (scan_of cl n p j) a \<le> count_list (scan_of cl n p m) a"
  using scan_of_prefix[of j m cl n p] by (auto simp add: count_list_append)

lemma set_scan_of_mono: "j \<le> m \<Longrightarrow> set (scan_of cl n p j) \<subseteq> set (scan_of cl n p m)"
  using scan_of_prefix[of j m cl n p] by auto

lemma butlast_scan_of: "butlast (scan_of cl n p m) = scan_of cl n p (m - 1)"
  by (cases m) (simp_all add: scan_of_def)

lemma last_scan_of: "0 < m \<Longrightarrow> last (scan_of cl n p m) = polls cl n p (m - 1)"
  by (cases m) (simp_all add: scan_of_Suc)

lemma fifth_timeout_complete:
  assumes "polls cl n p k = MessageEmpty" and "count_list (scan_of cl n p k) MessageEmpty = 4"
    and "EndOfPartitionReached \<notin> set (scan_of cl n p k)"
    and "\<not> list_ex poll_failed (scan_of cl n p k)"
  shows "complete_scan 5 (scan_of cl n p (Suc k))"
  using assms by (simp add: complete_scan_def scan_of_Suc count_list_append)

lemma fifth_timeout_length:
  assumes fifth: "polls cl n p k = MessageEmpty" "count_list (scan_of cl n p k) MessageEmpty = 4"
    and c: "complete_scan 5 (scan_of cl n p m)"
  shows "m \<le> Suc k \<and> (EndOfPartitionReached \<notin> set (scan_of cl n p k) \<longrightarrow> m = Suc k)"
proof -
  from c have m: "0 < m" by (cases m) (simp_all add: complete_scan_def scan_of_def)
  from c have cnt: "int (count_list (scan_of cl n p (m - 1)) MessageEmpty) < 5"
    by (simp add: complete_scan_def butlast_scan_of)
  have five: "count_list (scan_of cl n p (Suc k)) MessageEmpty = 5"
    using fifth by (simp add: scan_of_Suc count_list_append)
  have le: "m \<le> Suc k"
  proof (rule ccontr)
    assume "\<not> m \<le> Suc k"
    then have "Suc k \<le> m - 1" by simp
    from count_scan_of_mono[OF this, of cl n p MessageEmpty] five cnt show False by simp
  qed
  have "m = Suc k" if noeof: "EndOfPartitionReached \<notin> set (scan_of cl n p k)"
  proof (rule ccontr)
    assume "m \<noteq> Suc k"
    with le have mk: "m \<le> k" by simp
    from c m have l: "polls cl n p (m - 1) = EndOfPartitionReached \<or>
        polls cl n p (m - 1) = MessageEmpty \<and> count_list (scan_of cl n p m) MessageEmpty = 5"
      by (simp add: complete_scan_def last_scan_of)
    from m have "polls cl n p (m - 1) \<in> set (scan_of cl n p m)"
      by (cases m) (simp_all add: scan_of_Suc)
    with set_scan_of_mono[OF mk, of cl n p] noeof
    have "polls cl n p (m - 1) \<noteq> EndOfPartitionReached" by auto
    with l have "count_list (scan_of cl n p m) MessageEmpty = 5" by simp
    with count_scan_of_mono[OF mk, of cl n p MessageEmpty] fifth(2) show False by simp
  qed
  with le show ?thesis by simp
qed

text \<open>
  C10. The retry budget of a partition is 5, every timeout takes one from it and no
  message gives one back: when the poll at position \<open>k\<close> of a partition is its fifth
  timeout in total, whatever messages lie between the timeouts, the loop of the partition
  returns right after that poll with the budget at 0, and in a call that returns offsets
  the scan of the partition never goes past that poll and, with no end of partition
  before it, ends exactly there.
\<close>

theorem fifth_timeout_stops_scan:
  assumes "polls cl n p k = MessageEmpty"
    and "count_list (scan_of cl n p k) MessageEmpty = 4"
  shows "(EndOfPartitionReached \<notin> set (scan_of cl n p k) \<and>
          \<not> list_ex poll_failed (scan_of cl n p k) \<and>
          list_all in_range (messages (scan_of cl n p k)) \<longrightarrow>
            (\<exists>st'. poll_partition (polls cl n p) p L 0
                      \<lparr>partition_offsets = offs, max_retry_count = 5,
                       keep_polling_current_partition = True\<rparr> calls0 =
                    Some (Inr st', calls0 @ map (ConsumeSingleMessage p) (scan_of cl n p (Suc k))) \<and>
                  max_retry_count st' = 0 \<and>
                  partition_offsets st' = record_all L (messages (scan_of cl n p k)) offs)) \<and>
         (get_cluster_topic cl n = (Inr t, cs) \<and> p \<in> partition_id ` set (partition_data t) \<and>
          get_offsets_closest_to_timestamp cl n L = Some (Inr offsets, calls) \<longrightarrow>
            length (outcomes calls p) \<le> Suc k \<and>
            (EndOfPartitionReached \<notin> set (scan_of cl n p k) \<longrightarrow>
               outcomes calls p = scan_of cl n p (Suc k)))"
proof (intro conjI impI)
  assume clean: "EndOfPartitionReached \<notin> set (scan_of cl n p k) \<and>
          \<not> list_ex poll_failed (scan_of cl n p k) \<and>
          list_all in_range (messages (scan_of cl n p k))"
  let ?st = "\<lparr>partition_offsets = offs, max_retry_count = 5,
               keep_polling_current_partition = True\<rparr>"
  from clean have c: "complete_scan 5 (scan_of cl n p (Suc k))"
    using fifth_timeout_complete[OF assms] by simp
  from clean assms(1) have ir: "list_all in_range (messages (scan_of cl n p (Suc k)))"
    by (simp add: scan_of_Suc messages_append)
  from run_polls_complete[of ?st 5 "scan_of cl n p (Suc k)" L] c ir obtain st' where
    run: "run_polls L (scan_of cl n p (Suc k)) ?st = Some (Inr st')" by auto
  from run_polls_retries[OF run] assms have r: "max_retry_count st' = 0"
    by (simp add: scan_of_Suc count_list_append)
  from run_polls_sound[OF _ _ _ run] assms(1)
  have o: "partition_offsets st' = record_all L (messages (scan_of cl n p k)) offs"
    by (simp add: scan_of_Suc messages_append)
  from run have "run_polls L (map (polls cl n p) [0..<0 + Suc k]) ?st = Some (Inr st')"
    by (simp add: scan_of_def)
  from poll_partition_run[OF this, of p calls0]
  have "poll_partition (polls cl n p) p L 0 ?st calls0 =
      Some (Inr st', calls0 @ map (ConsumeSingleMessage p) (scan_of cl n p (Suc k)))"
    by (simp add: scan_of_def comp_def)
  with r o show "\<exists>st'. poll_partition (polls cl n p) p L 0 ?st calls0 =
                    Some (Inr st', calls0 @ map (ConsumeSingleMessage p) (scan_of cl n p (Suc k))) \<and>
                  max_retry_count st' = 0 \<and>
                  partition_offsets st' = record_all L (messages (scan_of cl n p k)) offs"
    by blast
next
  assume a: "get_cluster_topic cl n = (Inr t, cs) \<and> p \<in> partition_id ` set (partition_data t) \<and>
          get_offsets_closest_to_timestamp cl n L = Some (Inr offsets, calls)"
  then have p: "p \<in> set (topic_partitions t)" by (simp add: set_topic_partitions)
  from a get_offsets_scan[OF _ _ p, of cl n cs L offsets calls]
  have c: "complete_scan 5 (scan_of cl n p (length (outcomes calls p)))"
    and s: "outcomes calls p = scan_of cl n p (length (outcomes calls p))" by simp_all
  note f = fifth_timeout_length[OF assms c]
  from f show "length (outcomes calls p) \<le> Suc k" by simp
  assume "EndOfPartitionReached \<notin> set (scan_of cl n p k)"
  with f have "length (outcomes calls p) = Suc k" by simp
  with s show "outcomes calls p = scan_of cl n p (Suc k)" by simp
qed

definition interleaved :: "poll_result list" where
  "interleaved =
     [MessageEmpty,
      Message \<lparr>msg_partition = 0, msg_offset = 0, msg_timestamp = 1000\<rparr>,
      MessageEmpty,
      MessageEmpty,
      Message \<lparr>msg_partition = 0, msg_offset = 1, msg_timestamp = 2000\<rparr>,
      MessageEmpty,
      Message \<lparr>msg_partition = 0, msg_offset = 2, msg_timestamp = 2500\<rparr>,
      MessageEmpty]"

definition interleaved_scan :: "int \<Rightarrow> nat \<Rightarrow> poll_result" where
  "interleaved_scan p =
     (if p = 0
      then feed (interleaved @ [Message \<lparr>msg_partition = 0, msg_offset = 3, msg_timestamp = 2600\<rparr>])
      else feed [])"

definition interleaved_calls :: "call list" where
  "interleaved_calls =
     demo_fetch @
     [AssignSpecificPartitions ''t1'' 0, AssignSpecificPartitions ''t1'' 1] @
     map (ConsumeSingleMessage 0) interleaved @
     [ConsumeSingleMessage 1 MessageEmpty, ConsumeSingleMessage 1 MessageEmpty,
      ConsumeSingleMessage 1 MessageEmpty, ConsumeSingleMessage 1 MessageEmpty,
      ConsumeSingleMessage 1 MessageEmpty]"

lemma interleaved_scan_of_0:
  "scan_of (demo_cluster interleaved_scan) ''t1'' 0 8 = interleaved"
  by (simp add: scan_of_def demo_cluster_def interleaved_scan_def interleaved_def feed_def
        upt_conv_Cons)

lemma interleaved_scan_of_1:
  "scan_of (demo_cluster interleaved_scan) ''t1'' 1 5 =
     [MessageEmpty, MessageEmpty, MessageEmpty, MessageEmpty, MessageEmpty]"
  by (simp add: scan_of_def demo_cluster_def interleaved_scan_def feed_def upt_conv_Cons)

lemma interleaved_scans_complete:
  "scans_complete (demo_cluster interleaved_scan) ''t1'' (topic_partitions demo_topic) [8, 5]"
  by (simp add: demo_partitions interleaved_scan_of_0 interleaved_scan_of_1 complete_scan_def
        in_range_def int_div_1000_def interleaved_def)

lemma interleaved_get_offsets:
  "get_offsets_closest_to_timestamp (demo_cluster interleaved_scan) ''t1'' 3000000 =
     Some (Inr [(0, 3), (1, 0)], interleaved_calls)"
  by (simp add: get_offsets_total[OF demo_get_cluster_topic interleaved_scans_complete]
        demo_partitions demo_initial_offsets interleaved_scan_of_0 interleaved_scan_of_1
        interleaved_calls_def recorded_def int_div_1000_def interleaved_def)

theorem fifth_timeout_stops_scan_witness:
  "get_offsets_closest_to_timestamp (demo_cluster interleaved_scan) ''t1'' 3000000 =
     Some (Inr [(0, 3), (1, 0)], interleaved_calls) \<and>
   outcomes interleaved_calls 0 = interleaved \<and>
   polls (demo_cluster interleaved_scan) ''t1'' 0 7 = MessageEmpty \<and>
   polls (demo_cluster interleaved_scan) ''t1'' 0 8 =
     Message \<lparr>msg_partition = 0, msg_offset = 3, msg_timestamp = 2600\<rparr>"
proof -
  have s7: "scan_of (demo_cluster interleaved_scan) ''t1'' 0 7 = butlast interleaved"
    by (simp add: scan_of_def demo_cluster_def interleaved_scan_def interleaved_def feed_def
          upt_conv_Cons)
  have f1: "polls (demo_cluster interleaved_scan) ''t1'' 0 7 = MessageEmpty"
    by (simp add: demo_cluster_def interleaved_scan_def interleaved_def feed_def)
  have f2: "count_list (scan_of (demo_cluster interleaved_scan) ''t1'' 0 7) MessageEmpty = 4"
    by (simp add: s7 interleaved_def)
  have p: "0 \<in> partition_id ` set (partition_data demo_topic)"
    by (simp add: demo_topic_def)
  have noeof: "EndOfPartitionReached \<notin> set (scan_of (demo_cluster interleaved_scan) ''t1'' 0 7)"
    by (simp add: s7 interleaved_def)
  note th = fifth_timeout_stops_scan[OF f1 f2, where L = 3000000 and t = demo_topic
      and cs = demo_fetch and offsets = "[(0, 3), (1, 0)]" and calls = interleaved_calls]
  from conjunct2[OF th, THEN mp, OF conjI[OF demo_get_cluster_topic conjI[OF p interleaved_get_offsets]]]
    noeof
  have "outcomes interleaved_calls 0 = scan_of (demo_cluster interleaved_scan) ''t1'' 0 (Suc 7)"
    by simp
  then have "outcomes interleaved_calls 0 = interleaved"
    by (simp add: interleaved_scan_of_0)
  moreover have "polls (demo_cluster interleaved_scan) ''t1'' 0 8 =
     Message \<lparr>msg_partition = 0, msg_offset = 3, msg_timestamp = 2600\<rparr>"
    by (simp add: demo_cluster_def interleaved_scan_def interleaved_def feed_def)
  ultimately show ?thesis using interleaved_get_offsets f1 by simp
qed

fun is_consume :: "call \<Rightarrow> bool" where
  "is_consume (Consume n off p) = True"
| "is_consume _ = False"

definition nonempty :: "partition \<Rightarrow> bool" where
  "nonempty p \<longleftrightarrow> low_watermark p < high_watermark p"

definition latest_record :: "cluster \<Rightarrow> string \<Rightarrow> partition \<Rightarrow> bool" where
  "latest_record cl n p \<longleftrightarrow>
     (if nonempty p
      then \<exists>m. record_at cl n (high_watermark p - 1) (partition_id p) = Inr m \<and>
               latest_timestamp p = Some (real_of_int (msg_timestamp m) / 1000)
      else latest_timestamp p = None)"

lemma get_partition_spec:
  assumes "get_partition cl n lo hi pid meta = (Inr p, calls)"
  shows "partition_id p = pid \<and> map_of lo pid = Some (low_watermark p) \<and>
         map_of hi pid = Some (high_watermark p) \<and> latest_record cl n p \<and>
         calls = (if nonempty p then [Consume n (high_watermark p - 1) pid] else [])"
  using assms
  by (auto simp add: get_partition_def latest_record_def nonempty_def
        split: option.splits sum.splits if_splits)

lemma partition_loop_spec:
  "partition_loop cl n lo hi mps = (Inr ps, calls) \<Longrightarrow>
   map partition_id ps = map fst mps \<and>
   (\<forall>p\<in>set ps. map_of lo (partition_id p) = Some (low_watermark p) \<and>
               map_of hi (partition_id p) = Some (high_watermark p) \<and> latest_record cl n p) \<and>
   calls = map (\<lambda>p. Consume n (high_watermark p - 1) (partition_id p)) (filter nonempty ps)"
proof (induction mps arbitrary: ps calls)
  case Nil
  then show ?case by simp
next
  case (Cons a mps)
  obtain pid meta where a: "a = (pid, meta)" by (cases a)
  from Cons.prems a obtain p c1 ps' c2 where
    g: "get_partition cl n lo hi pid meta = (Inr p, c1)"
    and l: "partition_loop cl n lo hi mps = (Inr ps', c2)"
    and r: "ps = p # ps'" "calls = c1 @ c2"
    by (auto split: prod.splits sum.splits)
  from get_partition_spec[OF g] Cons.IH[OF l] r a show ?case by simp
qed

text \<open>
  C3. When \<^verbatim>\<open>update_from_cluster\<close> returns the topic, its partitions are those of the
  admin metadata, in order, each with its two watermarks. For a partition with
  \<open>high > low\<close> the record at offset \<open>high - 1\<close> is consumed and its timestamp, in
  milliseconds, is the latest timestamp of the partition, in seconds; for any other
  partition the latest timestamp is absent. These records are the only ones consumed.
\<close>

theorem update_from_cluster_latest_timestamp:
  assumes "update_from_cluster cl t = (Inr t', calls)"
  shows "map partition_id (partition_data t') = map fst (md_partitions (topic_lookup cl (name t))) \<and>
         (\<forall>p\<in>set (partition_data t').
             map_of (earliest_available_offsets cl (name t)) (partition_id p) = Some (low_watermark p) \<and>
             map_of (latest_available_offsets cl (name t)) (partition_id p) = Some (high_watermark p) \<and>
             (if low_watermark p < high_watermark p
              then \<exists>m. record_at cl (name t) (high_watermark p - 1) (partition_id p) = Inr m \<and>
                       latest_timestamp p = Some (real_of_int (msg_timestamp m) / 1000)
              else latest_timestamp p = None)) \<and>
         filter is_consume calls =
           map (\<lambda>p. Consume (name t) (high_watermark p - 1) (partition_id p))
               (filter (\<lambda>p. low_watermark p < high_watermark p) (partition_data t'))"
proof -
  let ?n = "name t"
  from assms obtain ps c4 where
    l: "partition_loop cl ?n (earliest_available_offsets cl ?n) (latest_available_offsets cl ?n)
          (md_partitions (topic_lookup cl ?n)) = (Inr ps, c4)"
    and t': "partition_data t' = ps"
    and c: "calls = [ListTopics (Some ?n), ListTopics (Some ?n), PyKafkaTopics ?n,
              EarliestAvailableOffsets ?n, LatestAvailableOffsets ?n, OpenMessageConsumer ?n]
              @ c4 @ [RetrieveConfig ?n]"
    by (auto simp add: update_from_cluster_def get_client_topic_def get_partition_data_def Let_def
          split: sum.splits prod.splits)
  from partition_loop_spec[OF l] have
    ids: "map partition_id ps = map fst (md_partitions (topic_lookup cl ?n))"
    and each: "\<forall>p\<in>set ps. map_of (earliest_available_offsets cl ?n) (partition_id p) = Some (low_watermark p) \<and>
               map_of (latest_available_offsets cl ?n) (partition_id p) = Some (high_watermark p) \<and>
               latest_record cl ?n p"
    and c4: "c4 = map (\<lambda>p. Consume ?n (high_watermark p - 1) (partition_id p)) (filter nonempty ps)"
    by simp_all
  have f: "filter is_consume calls = c4"
    unfolding c c4 by (simp add: filter_map comp_def)
  from ids each f c4 t' show ?thesis
    by (simp add: latest_record_def nonempty_def cong: filter_cong)
qed

theorem update_from_cluster_latest_timestamp_witness:
  "update_from_cluster (demo_cluster demo_scan) (Topic ''t1'') = (Inr demo_topic, demo_fetch) \<and>
   filter is_consume demo_fetch = [Consume ''t1'' 2 0] \<and>
   map latest_timestamp (partition_data demo_topic) = [Some (5 / 2), None]"
proof -
  have u: "update_from_cluster (demo_cluster demo_scan) (Topic ''t1'') = (Inr demo_topic, demo_fetch)"
    using demo_get_cluster_topic[of demo_scan] by (simp add: get_cluster_topic_def)
  from update_from_cluster_latest_timestamp[OF u]
  have "filter is_consume demo_fetch =
           map (\<lambda>p. Consume (name (Topic ''t1'')) (high_watermark p - 1) (partition_id p))
               (filter (\<lambda>p. low_watermark p < high_watermark p) (partition_data demo_topic))"
    by simp
  then have "filter is_consume demo_fetch = [Consume ''t1'' 2 0]"
    by (simp add: demo_topic_def Topic_def)
  with u show ?thesis by (simp add: demo_topic_def)
qed

section \<open>The difference between a local topic and the cluster's\<close>

text \<open>A value of a field compared by the diff: an integer, a string, or \<^verbatim>\<open>None\<close>.\<close>

datatype attr_value = IntValue int | StrValue string | NoneValue

definition int_value :: "int option \<Rightarrow> attr_value" where
  "int_value v = (case v of None \<Rightarrow> NoneValue | Some i \<Rightarrow> IntValue i)"

definition str_value :: "string option \<Rightarrow> attr_value" where
  "str_value v = (case v of None \<Rightarrow> NoneValue | Some s \<Rightarrow> StrValue s)"

type_synonym TopicDiff = "(string \<times> attr_value \<times> attr_value) list"

text \<open>
  Modelled from the spec: \<^verbatim>\<open>TopicDiff.set_diff\<close> (\<^verbatim>\<open>esque/resources/topic.py\<close>) is not
  among the sources. A \<^verbatim>\<open>TopicDiff\<close> is a mapping from the name of a field to the pair
  (cluster value, local value), populated only for the fields that differ.
\<close>

definition set_diff :: "string \<Rightarrow> attr_value \<Rightarrow> attr_value \<Rightarrow> TopicDiff \<Rightarrow> TopicDiff" where
  "set_diff field old new topic_diff = (if old \<noteq> new then AList.update field (old, new) topic_diff else topic_diff)"

text \<open>
  \<^verbatim>\<open>diff_with_cluster\<close>. The properties \<^verbatim>\<open>num_partitions\<close> and \<^verbatim>\<open>replication_factor\<close> of
  the \<^verbatim>\<open>Topic\<close> class, which is not among the sources, are the parameters \<open>partitions_of\<close>
  and \<open>replicas_of\<close>. The failed \<^verbatim>\<open>assert\<close> is an \<^verbatim>\<open>AssertionError\<close>.
\<close>

definition diff_with_cluster ::
  "(topic \<Rightarrow> int option) \<Rightarrow> (topic \<Rightarrow> int option) \<Rightarrow> cluster \<Rightarrow> topic
     \<Rightarrow> (error + TopicDiff) \<times> call list" where
  "diff_with_cluster partitions_of replicas_of cl local_topic =
     (if \<not> is_only_local local_topic then (Inl AssertionError, [])
      else
        (case get_cluster_topic cl (name local_topic) of
           (Inl e, calls) \<Rightarrow> (Inl e, calls)
         | (Inr cluster_topic, calls) \<Rightarrow>
             (let topic_diff = [];
                  topic_diff = set_diff ''num_partitions'' (int_value (partitions_of cluster_topic))
                            (int_value (partitions_of local_topic)) topic_diff;
                  topic_diff = set_diff ''replication_factor'' (int_value (replicas_of cluster_topic))
                            (int_value (replicas_of local_topic)) topic_diff;
                  topic_diff = foldl (\<lambda>d (field, old_value).
                                   set_diff field (StrValue old_value)
                                     (str_value (map_of (config local_topic) field)) d)
                            topic_diff (config cluster_topic)
              in (Inr topic_diff, calls))))"

lemma get_partition_no_assertion:
  "get_partition cl n lo hi pid meta = (Inl e, cs) \<Longrightarrow> e \<noteq> AssertionError"
  by (auto simp add: get_partition_def split: option.splits sum.splits if_splits)

lemma partition_loop_no_assertion:
  "partition_loop cl n lo hi mps = (Inl e, cs) \<Longrightarrow> e \<noteq> AssertionError"
proof (induction mps arbitrary: cs)
  case Nil
  then show ?case by simp
next
  case (Cons a mps)
  obtain pid meta where a: "a = (pid, meta)" by (cases a)
  obtain r1 c1 where g: "get_partition cl n lo hi pid meta = (r1, c1)" by force
  obtain r2 c2 where l: "partition_loop cl n lo hi mps = (r2, c2)" by force
  from Cons.prems a g l get_partition_no_assertion[of cl n lo hi pid meta e c1] Cons.IH[of c2]
  show ?case by (auto split: sum.splits)
qed

lemma get_cluster_topic_no_assertion:
  assumes "get_cluster_topic cl n = (Inl e, cs)"
  shows "e \<noteq> AssertionError"
proof -
  obtain r c where l: "partition_loop cl n (earliest_available_offsets cl n)
      (latest_available_offsets cl n) (md_partitions (topic_lookup cl n)) = (r, c)" by force
  from assms l partition_loop_no_assertion[of cl n _ _ _ e c] show ?thesis
    by (auto simp add: get_cluster_topic_def update_from_cluster_def get_client_topic_def
          get_partition_data_def raise_for_kafka_error_def Topic_def Let_def
          split: sum.splits prod.splits option.splits)
qed

text \<open>
  C9. \<^verbatim>\<open>diff_with_cluster\<close> on a topic that is not local-only fails at once with the
  failed assertion and makes no call to the cluster; on a local-only topic it never fails
  with it.
\<close>

theorem diff_with_cluster_precondition:
  "(\<not> is_only_local local_topic \<longrightarrow>
      diff_with_cluster partitions_of replicas_of cl local_topic = (Inl AssertionError, [])) \<and>
   (is_only_local local_topic \<longrightarrow>
      fst (diff_with_cluster partitions_of replicas_of cl local_topic) \<noteq> Inl AssertionError)"
proof (intro conjI impI)
  assume "\<not> is_only_local local_topic"
  then show "diff_with_cluster partitions_of replicas_of cl local_topic = (Inl AssertionError, [])"
    by (simp add: diff_with_cluster_def)
next
  assume l: "is_only_local local_topic"
  obtain r cs where g: "get_cluster_topic cl (name local_topic) = (r, cs)" by force
  show "fst (diff_with_cluster partitions_of replicas_of cl local_topic) \<noteq> Inl AssertionError"
  proof (cases r)
    case (Inl e)
    with g get_cluster_topic_no_assertion[of cl "name local_topic" e cs] l show ?thesis
      by (simp add: diff_with_cluster_def)
  next
    case (Inr ct)
    with g l show ?thesis by (simp add: diff_with_cluster_def Let_def)
  qed
qed

definition demo_partitions_of :: "topic \<Rightarrow> int option" where
  "demo_partitions_of t =
     (if is_only_local t then num_partitions t else Some (int (length (partition_data t))))"

definition demo_replicas_of :: "topic \<Rightarrow> int option" where
  "demo_replicas_of t =
     (if is_only_local t then replication_factor t
      else (case partition_data t of [] \<Rightarrow> None
            | p # ps \<Rightarrow> Some (int (length (partition_replicas p)))))"

theorem diff_with_cluster_precondition_witness:
  "\<not> is_only_local demo_topic \<and>
   diff_with_cluster demo_partitions_of demo_replicas_of (demo_cluster demo_scan) demo_topic =
     (Inl AssertionError, []) \<and>
   is_only_local (Topic ''t1'') \<and>
   fst (diff_with_cluster demo_partitions_of demo_replicas_of (demo_cluster demo_scan) (Topic ''t1''))
     \<noteq> Inl AssertionError"
  using diff_with_cluster_precondition[of demo_topic demo_partitions_of demo_replicas_of
          "demo_cluster demo_scan"]
        diff_with_cluster_precondition[of "Topic ''t1''" demo_partitions_of demo_replicas_of
          "demo_cluster demo_scan"]
  by (simp add: demo_topic_def Topic_def)

definition declared_diff ::
  "(topic \<Rightarrow> int option) \<Rightarrow> (topic \<Rightarrow> int option) \<Rightarrow> topic \<Rightarrow> topic \<Rightarrow> string
     \<Rightarrow> (attr_value \<times> attr_value) option" where
  "declared_diff partitions_of replicas_of ct lt k =
     (if k = ''replication_factor'' \<and> replicas_of ct \<noteq> replicas_of lt
      then Some (int_value (replicas_of ct), int_value (replicas_of lt))
      else if k = ''num_partitions'' \<and> partitions_of ct \<noteq> partitions_of lt
      then Some (int_value (partitions_of ct), int_value (partitions_of lt))
      else None)"

definition config_diff :: "topic \<Rightarrow> topic \<Rightarrow> string \<Rightarrow> (attr_value \<times> attr_value) option" where
  "config_diff ct lt k =
     (case map_of (config ct) k of
        None \<Rightarrow> None
      | Some v \<Rightarrow>
          if map_of (config lt) k = Some v then None
          else Some (StrValue v, str_value (map_of (config lt) k)))"

lemma int_value_eq: "int_value a = int_value b \<longleftrightarrow> a = b"
  by (simp add: int_value_def split: option.splits)

lemma str_value_eq: "StrValue v = str_value a \<longleftrightarrow> a = Some v"
  by (auto simp add: str_value_def split: option.splits)

lemma map_of_set_diff:
  "map_of (set_diff f old new d) k = (if k = f \<and> old \<noteq> new then Some (old, new) else map_of d k)"
  by (simp add: set_diff_def update_conv')

lemma map_of_foldl_set_diff:
  "distinct (map fst cfg) \<Longrightarrow>
   map_of (foldl (\<lambda>d (field, old_value).
                    set_diff field (StrValue old_value) (str_value (map_of lc field)) d) d cfg) k =
     (case map_of cfg k of
        None \<Rightarrow> map_of d k
      | Some v \<Rightarrow> if map_of lc k = Some v then map_of d k
                  else Some (StrValue v, str_value (map_of lc k)))"
proof (induction cfg arbitrary: d)
  case Nil
  then show ?case by simp
next
  case (Cons a cfg)
  obtain k1 v1 where a: "a = (k1, v1)" by (cases a)
  from Cons.prems a have d: "distinct (map fst cfg)" and n: "map_of cfg k1 = None"
    by (simp_all add: map_of_eq_None_iff)
  show ?case
    using n by (simp add: a Cons.IH[OF d] map_of_set_diff str_value_eq split: option.splits)
qed

lemma foldl_set_diff_same:
  "\<forall>(k, v)\<in>set cfg. map_of lc k = Some v \<Longrightarrow>
   foldl (\<lambda>d (field, old_value).
            set_diff field (StrValue old_value) (str_value (map_of lc field)) d) d cfg = d"
  by (induction cfg arbitrary: d) (auto simp add: set_diff_def str_value_def)

lemma diff_with_cluster_result:
  assumes "diff_with_cluster partitions_of replicas_of cl lt = (Inr td, calls)"
    and "get_cluster_topic cl (name lt) = (Inr ct, cs)"
  shows "td = foldl (\<lambda>d (field, old_value).
                       set_diff field (StrValue old_value) (str_value (map_of (config lt) field)) d)
                (set_diff ''replication_factor'' (int_value (replicas_of ct)) (int_value (replicas_of lt))
                   (set_diff ''num_partitions'' (int_value (partitions_of ct))
                      (int_value (partitions_of lt)) []))
                (config ct)"
  using assms by (simp add: diff_with_cluster_def Let_def split: if_splits)

lemma foldl_set_diff_single:
  assumes "distinct (map fst cfg)" and "map_of cfg k = Some v" and "map_of lc k \<noteq> Some v"
    and "\<forall>k' v'. k' \<noteq> k \<and> map_of cfg k' = Some v' \<longrightarrow> map_of lc k' = Some v'"
  shows "foldl (\<lambda>d (field, old_value).
            set_diff field (StrValue old_value) (str_value (map_of lc field)) d) [] cfg =
         [(k, StrValue v, str_value (map_of lc k))]"
proof -
  let ?F = "\<lambda>d (field, old_value).
            set_diff field (StrValue old_value) (str_value (map_of lc field)) d"
  from assms(2) have "(k, v) \<in> set cfg" by (rule map_of_SomeD)
  then obtain pre post where c: "cfg = pre @ (k, v) # post"
    by (auto simp add: in_set_conv_decomp)
  from assms(1) c have dk: "k \<notin> fst ` set pre" "k \<notin> fst ` set post"
    and dpre: "distinct (map fst pre)" and dpost: "distinct (map fst post)"
    by auto
  have pre: "\<forall>(k', v')\<in>set pre. map_of lc k' = Some v'"
  proof (clarify)
    fix k' v' assume m: "(k', v') \<in> set pre"
    with dk have ne: "k' \<noteq> k" by force
    from m c have "(k', v') \<in> set cfg" by simp
    with assms(1) have "map_of cfg k' = Some v'" by simp
    with ne assms(4) show "map_of lc k' = Some v'" by blast
  qed
  have post: "\<forall>(k', v')\<in>set post. map_of lc k' = Some v'"
  proof (clarify)
    fix k' v' assume m: "(k', v') \<in> set post"
    with dk have ne: "k' \<noteq> k" by force
    from m c have "(k', v') \<in> set cfg" by simp
    with assms(1) have "map_of cfg k' = Some v'" by simp
    with ne assms(4) show "map_of lc k' = Some v'" by blast
  qed
  have "foldl ?F [] cfg = foldl ?F (?F (foldl ?F [] pre) (k, v)) post"
    by (simp add: c)
  also have "\<dots> = ?F (foldl ?F [] pre) (k, v)"
    by (rule foldl_set_diff_same[OF post])
  also have "\<dots> = ?F [] (k, v)"
    by (simp only: foldl_set_diff_same[OF pre])
  also have "\<dots> = [(k, StrValue v, str_value (map_of lc k))]"
    using assms(3) by (simp add: set_diff_def str_value_eq)
  finally show ?thesis .
qed

text \<open>
  C5. The diff returned by \<^verbatim>\<open>diff_with_cluster\<close> has an entry exactly for the fields whose
  cluster and local values differ, among \<^verbatim>\<open>num_partitions\<close>, \<^verbatim>\<open>replication_factor\<close> and the
  keys of the cluster topic's configuration; the entry is the pair (cluster value, local
  value), a key missing from the local configuration being compared as \<^verbatim>\<open>None\<close>. A local
  topic that agrees with the cluster's gives the empty diff, and one that differs in a
  single configuration key gives the diff with that key alone.
\<close>

theorem diff_with_cluster_fields:
  assumes "diff_with_cluster partitions_of replicas_of cl lt = (Inr td, calls)"
    and "get_cluster_topic cl (name lt) = (Inr ct, cs)"
    and "distinct (map fst (config ct))"
  shows "map_of td k =
           (case config_diff ct lt k of Some d \<Rightarrow> Some d
            | None \<Rightarrow> declared_diff partitions_of replicas_of ct lt k) \<and>
         (partitions_of ct = partitions_of lt \<and> replicas_of ct = replicas_of lt \<and>
          (\<forall>k' v'. map_of (config ct) k' = Some v' \<longrightarrow> map_of (config lt) k' = Some v')
            \<longrightarrow> td = []) \<and>
         (partitions_of ct = partitions_of lt \<and> replicas_of ct = replicas_of lt \<and>
          map_of (config ct) k = Some v \<and> map_of (config lt) k \<noteq> Some v \<and>
          (\<forall>k' v'. k' \<noteq> k \<and> map_of (config ct) k' = Some v' \<longrightarrow> map_of (config lt) k' = Some v')
            \<longrightarrow> td = [(k, StrValue v, str_value (map_of (config lt) k))])"
proof (intro conjI impI)
  note td = diff_with_cluster_result[OF assms(1,2)]
  show "map_of td k =
           (case config_diff ct lt k of Some d \<Rightarrow> Some d
            | None \<Rightarrow> declared_diff partitions_of replicas_of ct lt k)"
    unfolding td
    by (simp add: map_of_foldl_set_diff[OF assms(3)] map_of_set_diff config_diff_def
          declared_diff_def int_value_eq split: option.splits)
next
  note td = diff_with_cluster_result[OF assms(1,2)]
  assume a: "partitions_of ct = partitions_of lt \<and> replicas_of ct = replicas_of lt \<and>
          (\<forall>k' v'. map_of (config ct) k' = Some v' \<longrightarrow> map_of (config lt) k' = Some v')"
  with assms(3) have same: "\<forall>(k', v')\<in>set (config ct). map_of (config lt) k' = Some v'"
    by auto
  from a have s: "set_diff ''replication_factor'' (int_value (replicas_of ct)) (int_value (replicas_of lt))
                   (set_diff ''num_partitions'' (int_value (partitions_of ct))
                      (int_value (partitions_of lt)) []) = []"
    by (simp add: set_diff_def)
  show "td = []"
    unfolding td s by (rule foldl_set_diff_same[OF same])
next
  note td = diff_with_cluster_result[OF assms(1,2)]
  assume a: "partitions_of ct = partitions_of lt \<and> replicas_of ct = replicas_of lt \<and>
          map_of (config ct) k = Some v \<and> map_of (config lt) k \<noteq> Some v \<and>
          (\<forall>k' v'. k' \<noteq> k \<and> map_of (config ct) k' = Some v' \<longrightarrow> map_of (config lt) k' = Some v')"
  then have s: "set_diff ''replication_factor'' (int_value (replicas_of ct)) (int_value (replicas_of lt))
                   (set_diff ''num_partitions'' (int_value (partitions_of ct))
                      (int_value (partitions_of lt)) []) = []"
    by (simp add: set_diff_def)
  from a have 1: "map_of (config ct) k = Some v" and 2: "map_of (config lt) k \<noteq> Some v"
    and 3: "\<forall>k' v'. k' \<noteq> k \<and> map_of (config ct) k' = Some v' \<longrightarrow> map_of (config lt) k' = Some v'"
    by blast+
  show "td = [(k, StrValue v, str_value (map_of (config lt) k))]"
    unfolding td s by (rule foldl_set_diff_single[OF assms(3) 1 2 3])
qed


definition changed_topic :: topic where
  "changed_topic =
     \<lparr>name = ''t1'', num_partitions = Some 2, replication_factor = Some 1,
      config = [(''cleanup.policy'', ''compact'')], partition_data = [], is_only_local = True\<rparr>"

definition same_topic :: topic where
  "same_topic =
     \<lparr>name = ''t1'', num_partitions = Some 2, replication_factor = Some 1,
      config = [(''cleanup.policy'', ''delete'')], partition_data = [], is_only_local = True\<rparr>"

definition unset_topic :: topic where
  "unset_topic =
     \<lparr>name = ''t1'', num_partitions = Some 3, replication_factor = Some 1,
      config = [], partition_data = [], is_only_local = True\<rparr>"

lemma demo_diff_returns:
  "is_only_local lt \<Longrightarrow> name lt = ''t1'' \<Longrightarrow>
   \<exists>td. diff_with_cluster demo_partitions_of demo_replicas_of (demo_cluster demo_scan) lt =
           (Inr td, demo_fetch)"
  by (simp add: diff_with_cluster_def demo_get_cluster_topic Let_def)

lemma demo_declared:
  "demo_partitions_of demo_topic = Some 2" "demo_replicas_of demo_topic = Some 1"
  "config demo_topic = [(''cleanup.policy'', ''delete'')]"
  by (simp_all add: demo_partitions_of_def demo_replicas_of_def demo_topic_def)

lemma demo_changed:
  "demo_partitions_of changed_topic = Some 2" "demo_replicas_of changed_topic = Some 1"
  "config changed_topic = [(''cleanup.policy'', ''compact'')]"
  by (simp_all add: demo_partitions_of_def demo_replicas_of_def changed_topic_def)

lemma demo_same:
  "demo_partitions_of same_topic = Some 2" "demo_replicas_of same_topic = Some 1"
  "config same_topic = [(''cleanup.policy'', ''delete'')]"
  by (simp_all add: demo_partitions_of_def demo_replicas_of_def same_topic_def)

lemma demo_unset:
  "demo_partitions_of unset_topic = Some 3" "demo_replicas_of unset_topic = Some 1"
  "config unset_topic = []"
  by (simp_all add: demo_partitions_of_def demo_replicas_of_def unset_topic_def)

theorem diff_with_cluster_fields_witness:
  "diff_with_cluster demo_partitions_of demo_replicas_of (demo_cluster demo_scan) changed_topic =
     (Inr [(''cleanup.policy'', StrValue ''delete'', StrValue ''compact'')], demo_fetch) \<and>
   diff_with_cluster demo_partitions_of demo_replicas_of (demo_cluster demo_scan) same_topic =
     (Inr [], demo_fetch) \<and>
   (\<exists>td. diff_with_cluster demo_partitions_of demo_replicas_of (demo_cluster demo_scan) unset_topic =
            (Inr td, demo_fetch) \<and>
          map_of td ''num_partitions'' = Some (IntValue 2, IntValue 3) \<and>
          map_of td ''replication_factor'' = None \<and>
          map_of td ''cleanup.policy'' = Some (StrValue ''delete'', NoneValue))"
proof (intro conjI)
  have d: "distinct (map fst (config demo_topic))" by (simp add: demo_declared)
  obtain td where td: "diff_with_cluster demo_partitions_of demo_replicas_of
      (demo_cluster demo_scan) changed_topic = (Inr td, demo_fetch)"
    using demo_diff_returns[of changed_topic] by (auto simp add: changed_topic_def)
  have g: "get_cluster_topic (demo_cluster demo_scan) (name changed_topic) = (Inr demo_topic, demo_fetch)"
    by (simp add: changed_topic_def demo_get_cluster_topic)
  note f = diff_with_cluster_fields[OF td g d, of "''cleanup.policy''" "''delete''",
      THEN conjunct2, THEN conjunct2]
  have "demo_partitions_of demo_topic = demo_partitions_of changed_topic \<and>
        demo_replicas_of demo_topic = demo_replicas_of changed_topic \<and>
        map_of (config demo_topic) ''cleanup.policy'' = Some ''delete'' \<and>
        map_of (config changed_topic) ''cleanup.policy'' \<noteq> Some ''delete'' \<and>
        (\<forall>k' v'. k' \<noteq> ''cleanup.policy'' \<and> map_of (config demo_topic) k' = Some v' \<longrightarrow>
           map_of (config changed_topic) k' = Some v')"
    by (simp add: demo_declared demo_changed)
  with f have "td = [(''cleanup.policy'', StrValue ''delete'',
      str_value (map_of (config changed_topic) ''cleanup.policy''))]"
    by (rule mp)
  with td show "diff_with_cluster demo_partitions_of demo_replicas_of (demo_cluster demo_scan)
      changed_topic = (Inr [(''cleanup.policy'', StrValue ''delete'', StrValue ''compact'')], demo_fetch)"
    by (simp add: demo_changed str_value_def)
next
  have d: "distinct (map fst (config demo_topic))" by (simp add: demo_declared)
  obtain td where td: "diff_with_cluster demo_partitions_of demo_replicas_of
      (demo_cluster demo_scan) same_topic = (Inr td, demo_fetch)"
    using demo_diff_returns[of same_topic] by (auto simp add: same_topic_def)
  have g: "get_cluster_topic (demo_cluster demo_scan) (name same_topic) = (Inr demo_topic, demo_fetch)"
    by (simp add: same_topic_def demo_get_cluster_topic)
  note f = diff_with_cluster_fields[OF td g d, of "''cleanup.policy''" "''delete''",
      THEN conjunct2, THEN conjunct1]
  have "demo_partitions_of demo_topic = demo_partitions_of same_topic \<and>
        demo_replicas_of demo_topic = demo_replicas_of same_topic \<and>
        (\<forall>k' v'. map_of (config demo_topic) k' = Some v' \<longrightarrow>
           map_of (config same_topic) k' = Some v')"
    by (simp add: demo_declared demo_same)
  with f have "td = []" by (rule mp)
  with td show "diff_with_cluster demo_partitions_of demo_replicas_of (demo_cluster demo_scan)
      same_topic = (Inr [], demo_fetch)"
    by simp
next
  have d: "distinct (map fst (config demo_topic))" by (simp add: demo_declared)
  obtain td where td: "diff_with_cluster demo_partitions_of demo_replicas_of
      (demo_cluster demo_scan) unset_topic = (Inr td, demo_fetch)"
    using demo_diff_returns[of unset_topic] by (auto simp add: unset_topic_def)
  have g: "get_cluster_topic (demo_cluster demo_scan) (name unset_topic) = (Inr demo_topic, demo_fetch)"
    by (simp add: unset_topic_def demo_get_cluster_topic)
  from diff_with_cluster_fields[OF td g d, of "''num_partitions''", THEN conjunct1]
  have 1: "map_of td ''num_partitions'' = Some (IntValue 2, IntValue 3)"
    by (simp add: demo_declared demo_unset config_diff_def declared_diff_def int_value_def)
  from diff_with_cluster_fields[OF td g d, of "''replication_factor''", THEN conjunct1]
  have 2: "map_of td ''replication_factor'' = None"
    by (simp add: demo_declared demo_unset config_diff_def declared_diff_def int_value_def)
  from diff_with_cluster_fields[OF td g d, of "''cleanup.policy''", THEN conjunct1]
  have 3: "map_of td ''cleanup.policy'' = Some (StrValue ''delete'', NoneValue)"
    by (simp add: demo_declared demo_unset config_diff_def declared_diff_def str_value_def)
  from td 1 2 3 show "\<exists>td. diff_with_cluster demo_partitions_of demo_replicas_of
      (demo_cluster demo_scan) unset_topic = (Inr td, demo_fetch) \<and>
          map_of td ''num_partitions'' = Some (IntValue 2, IntValue 3) \<and>
          map_of td ''replication_factor'' = None \<and>
          map_of td ''cleanup.policy'' = Some (StrValue ''delete'', NoneValue)"
    by blast
qed

section \<open>A lookup that reports an error\<close>

lemma update_from_cluster_lookup_error:
  "md_error (topic_lookup cl (name t)) = Some e \<Longrightarrow>
   update_from_cluster cl t = (Inl TopicNotFoundError, [ListTopics (Some (name t))])"
  by (simp add: update_from_cluster_def get_client_topic_def raise_for_kafka_error_def Let_def)

lemma get_cluster_topic_lookup_error:
  "md_error (topic_lookup cl n) = Some e \<Longrightarrow>
   get_cluster_topic cl n = (Inl TopicNotFoundError, [ListTopics (Some n)])"
  by (simp add: get_cluster_topic_def update_from_cluster_lookup_error Topic_def)

text \<open>
  C8. When the lookup of the metadata of a topic reports an error, \<^verbatim>\<open>get_cluster_topic\<close>,
  \<^verbatim>\<open>update_from_cluster\<close>, \<^verbatim>\<open>get_offsets_closest_to_timestamp\<close> and \<^verbatim>\<open>diff_with_cluster\<close>
  (of a local-only topic) fail with \<^verbatim>\<open>TopicNotFoundError\<close>, and the one lookup is the only
  call they have made: nothing is tried again and nothing else is fetched.
\<close>

theorem lookup_error_topic_not_found:
  assumes "md_error (topic_lookup cl n) = Some e"
  shows "get_cluster_topic cl n = (Inl TopicNotFoundError, [ListTopics (Some n)]) \<and>
         (name t = n \<longrightarrow>
            update_from_cluster cl t = (Inl TopicNotFoundError, [ListTopics (Some n)])) \<and>
         get_offsets_closest_to_timestamp cl n timestamp_limit =
           Some (Inl TopicNotFoundError, [ListTopics (Some n)]) \<and>
         (is_only_local local_topic \<and> name local_topic = n \<longrightarrow>
            diff_with_cluster partitions_of replicas_of cl local_topic =
              (Inl TopicNotFoundError, [ListTopics (Some n)]))"
proof (intro conjI impI)
  show "get_cluster_topic cl n = (Inl TopicNotFoundError, [ListTopics (Some n)])"
    using assms by (rule get_cluster_topic_lookup_error)
next
  assume "name t = n"
  with assms show "update_from_cluster cl t = (Inl TopicNotFoundError, [ListTopics (Some n)])"
    using update_from_cluster_lookup_error[of cl t e] by simp
next
  show "get_offsets_closest_to_timestamp cl n timestamp_limit =
          Some (Inl TopicNotFoundError, [ListTopics (Some n)])"
    by (simp add: get_offsets_closest_to_timestamp_def get_cluster_topic_lookup_error[OF assms])
next
  assume "is_only_local local_topic \<and> name local_topic = n"
  then show "diff_with_cluster partitions_of replicas_of cl local_topic =
          (Inl TopicNotFoundError, [ListTopics (Some n)])"
    by (simp add: diff_with_cluster_def get_cluster_topic_lookup_error[OF assms])
qed

theorem lookup_error_topic_not_found_witness:
  "md_error (topic_lookup (demo_cluster demo_scan) ''t2'') = Some 3 \<and>
   get_cluster_topic (demo_cluster demo_scan) ''t2'' =
     (Inl TopicNotFoundError, [ListTopics (Some ''t2'')]) \<and>
   update_from_cluster (demo_cluster demo_scan) (Topic ''t2'') =
     (Inl TopicNotFoundError, [ListTopics (Some ''t2'')]) \<and>
   get_offsets_closest_to_timestamp (demo_cluster demo_scan) ''t2'' 3000000 =
     Some (Inl TopicNotFoundError, [ListTopics (Some ''t2'')]) \<and>
   diff_with_cluster demo_partitions_of demo_replicas_of (demo_cluster demo_scan) (Topic ''t2'') =
     (Inl TopicNotFoundError, [ListTopics (Some ''t2'')])"
proof -
  have e: "md_error (topic_lookup (demo_cluster demo_scan) ''t2'') = Some 3"
    by (simp add: demo_cluster_def)
  from lookup_error_topic_not_found[OF e, of "Topic ''t2''" 3000000 "Topic ''t2''"
      demo_partitions_of demo_replicas_of] e
  show ?thesis by (simp add: Topic_def)
qed

section \<open>Listing the topics\<close>

text \<open>\<^verbatim>\<open>topic.startswith(prefix)\<close>.\<close>

definition startswith :: "string \<Rightarrow> string \<Rightarrow> bool" where
  "startswith s pre = (take (length pre) s = pre)"

text \<open>
  The comprehension \<^verbatim>\<open>[topic for topic in topic_names if re.match(search_string, topic)]\<close>.
  \<^verbatim>\<open>re.match\<close> is the parameter \<open>re_match\<close>: it tells whether the pattern matches at the
  start of the name, or raises (a pattern that does not compile); the first raise ends the
  comprehension.
\<close>

fun filter_match :: "(string \<Rightarrow> string \<Rightarrow> error + bool) \<Rightarrow> string \<Rightarrow> string list \<Rightarrow> error + string list" where
  "filter_match re_match search_string [] = Inr []"
| "filter_match re_match search_string (topic # topic_names) =
     (case re_match search_string topic of
        Inl e \<Rightarrow> Inl e
      | Inr b \<Rightarrow>
          (case filter_match re_match search_string topic_names of
             Inl e \<Rightarrow> Inl e
           | Inr rest \<Rightarrow> Inr (if b then topic # rest else rest)))"

text \<open>\<^verbatim>\<open>list(map(self.get_cluster_topic, topic_names))\<close>: the first fetch that raises ends it.\<close>

fun map_get_cluster_topic :: "cluster \<Rightarrow> string list \<Rightarrow> (error + topic list) \<times> call list" where
  "map_get_cluster_topic cl [] = (Inr [], [])"
| "map_get_cluster_topic cl (topic_name # topic_names) =
     (case get_cluster_topic cl topic_name of
        (Inl e, calls1) \<Rightarrow> (Inl e, calls1)
      | (Inr t, calls1) \<Rightarrow>
          (case map_get_cluster_topic cl topic_names of
             (Inl e, calls2) \<Rightarrow> (Inl e, calls1 @ calls2)
           | (Inr ts, calls2) \<Rightarrow> (Inr (t # ts), calls1 @ calls2)))"

text \<open>
  \<^verbatim>\<open>list_topics\<close>. The names are those of \<^verbatim>\<open>confluent_client.list_topics().topics\<close>;
  \<^verbatim>\<open>if search_string:\<close> holds of a string that is not empty; \<^verbatim>\<open>sorted\<close> sorts the names by
  the codes of their characters.
\<close>

definition list_topics ::
  "(string \<Rightarrow> string \<Rightarrow> error + bool) \<Rightarrow> cluster \<Rightarrow> string option \<Rightarrow> bool \<Rightarrow> bool \<Rightarrow> bool
     \<Rightarrow> (error + topic list) \<times> call list" where
  "list_topics re_match cl search_string sort_flag hide_internal get_topic_objects =
     (let calls = [ClientPoll, ListTopics None];
          topic_results = all_topics cl;
          topic_names = map md_topic topic_results
      in case (case search_string of
                 None \<Rightarrow> Inr topic_names
               | Some s \<Rightarrow> if s \<noteq> [] then filter_match re_match s topic_names else Inr topic_names) of
           Inl e \<Rightarrow> (Inl e, calls)
         | Inr topic_names \<Rightarrow>
             (let topic_names = (if hide_internal
                                 then filter (\<lambda>topic. \<not> startswith topic ''__'') topic_names
                                 else topic_names);
                  topic_names = (if sort_flag then sort topic_names else topic_names)
              in if get_topic_objects
                 then (case map_get_cluster_topic cl topic_names of
                         (r, calls1) \<Rightarrow> (r, calls @ calls1))
                 else (Inr (map get_local_topic topic_names), calls)))"

text \<open>The topic that a call to the cluster is about, if it is about one.\<close>

fun call_topic :: "call \<Rightarrow> string option" where
  "call_topic (ListTopics t) = t"
| "call_topic (PyKafkaTopics n) = Some n"
| "call_topic (EarliestAvailableOffsets n) = Some n"
| "call_topic (LatestAvailableOffsets n) = Some n"
| "call_topic (OpenMessageConsumer n) = Some n"
| "call_topic (Consume n off p) = Some n"
| "call_topic (RetrieveConfig n) = Some n"
| "call_topic (AssignSpecificPartitions n p) = Some n"
| "call_topic (CreateTopics r) = Some (nt_name r)"
| "call_topic (AlterConfigs n c) = Some n"
| "call_topic (DeleteTopics n) = Some n"
| "call_topic ClientPoll = None"
| "call_topic (ConsumeSingleMessage p r) = None"
| "call_topic InvalidateCache = None"

text \<open>The names that the filters of \<^verbatim>\<open>list_topics\<close> keep.\<close>

definition kept ::
  "(string \<Rightarrow> string \<Rightarrow> error + bool) \<Rightarrow> string option \<Rightarrow> bool \<Rightarrow> string \<Rightarrow> bool" where
  "kept re_match search_string hide_internal n \<longleftrightarrow>
     (case search_string of
        None \<Rightarrow> True
      | Some s \<Rightarrow> s = [] \<or> re_match s n = Inr True) \<and>
     (hide_internal \<longrightarrow> \<not> startswith n ''__'')"

lemma filter_match_Inr:
  "filter_match re_match s ns = Inr r \<Longrightarrow> r = filter (\<lambda>n. re_match s n = Inr True) ns"
  by (induction ns arbitrary: r) (auto split: sum.splits)

lemma filter_match_total:
  "\<forall>n\<in>set ns. \<exists>b. re_match s n = Inr b \<Longrightarrow> \<exists>r. filter_match re_match s ns = Inr r"
  by (induction ns) (auto split: sum.splits)

lemma get_partition_call_topic:
  "get_partition cl n lo hi pid meta = (r, cs) \<Longrightarrow> \<forall>x\<in>set cs. call_topic x = Some n"
  by (auto simp add: get_partition_def split: option.splits sum.splits if_splits)

lemma partition_loop_call_topic:
  "partition_loop cl n lo hi ps = (r, cs) \<Longrightarrow> \<forall>x\<in>set cs. call_topic x = Some n"
proof (induction ps arbitrary: r cs)
  case Nil
  then show ?case by simp
next
  case (Cons a ps)
  obtain pid meta where a: "a = (pid, meta)" by (cases a)
  obtain r1 cs1 where g: "get_partition cl n lo hi pid meta = (r1, cs1)" by force
  obtain r2 cs2 where l: "partition_loop cl n lo hi ps = (r2, cs2)" by force
  from get_partition_call_topic[OF g] Cons.IH[OF l] Cons.prems show ?case
    by (auto simp add: a g l split: sum.splits)
qed

lemma get_client_topic_call_topic:
  "get_client_topic cl n ty = (r, cs) \<Longrightarrow> \<forall>x\<in>set cs. call_topic x = Some n"
  by (cases ty) (auto simp add: get_client_topic_def Let_def split: sum.splits)

lemma update_from_cluster_call_topic:
  assumes u: "update_from_cluster cl t = (r, cs)"
  shows "\<forall>x\<in>set cs. call_topic x = Some (name t)"
proof -
  obtain r1 cs1 where g1: "get_client_topic cl (name t) Confluent = (r1, cs1)" by force
  obtain r2 cs2 where g2: "get_client_topic cl (name t) PyKafka = (r2, cs2)" by force
  obtain r3 cs3 where g3: "partition_loop cl (name t) (earliest_available_offsets cl (name t))
          (latest_available_offsets cl (name t)) (md_partitions (topic_lookup cl (name t))) = (r3, cs3)"
    by force
  have c: "r1 = Inr (ConfluentTopic m) \<Longrightarrow> m = topic_lookup cl (name t)" for m
    using g1 by (auto simp add: get_client_topic_def Let_def split: sum.splits)
  from u get_client_topic_call_topic[OF g1] get_client_topic_call_topic[OF g2]
    partition_loop_call_topic[OF g3] show ?thesis
    by (auto simp add: update_from_cluster_def get_partition_data_def Let_def g1 g2 g3
          split: prod.splits sum.splits ClientType.splits dest!: c)
qed

lemma get_cluster_topic_call_topic:
  "get_cluster_topic cl n = (r, cs) \<Longrightarrow> \<forall>x\<in>set cs. call_topic x = Some n"
  using update_from_cluster_call_topic[of cl "Topic n" r cs]
  by (simp add: get_cluster_topic_def Topic_def)

lemma update_from_cluster_name: "update_from_cluster cl t = (Inr t', cs) \<Longrightarrow> name t' = name t"
  by (auto simp add: update_from_cluster_def Let_def
        split: prod.splits sum.splits ClientType.splits)

lemma get_cluster_topic_name: "get_cluster_topic cl n = (Inr t, cs) \<Longrightarrow> name t = n"
  using update_from_cluster_name[of cl "Topic n" t cs]
  by (simp add: get_cluster_topic_def Topic_def)

lemma map_get_cluster_topic_call_topic:
  "map_get_cluster_topic cl ns = (r, cs) \<Longrightarrow> \<forall>x\<in>set cs. \<exists>n\<in>set ns. call_topic x = Some n"
proof (induction ns arbitrary: r cs)
  case Nil
  then show ?case by simp
next
  case (Cons n ns)
  obtain r1 cs1 where g: "get_cluster_topic cl n = (r1, cs1)" by force
  obtain r2 cs2 where l: "map_get_cluster_topic cl ns = (r2, cs2)" by force
  from get_cluster_topic_call_topic[OF g] Cons.IH[OF l] Cons.prems show ?case
    by (auto simp add: g l split: sum.splits)
qed

lemma map_get_cluster_topic_Inr:
  "map_get_cluster_topic cl ns = (Inr ts, cs) \<Longrightarrow>
   map name ts = ns \<and> cs = concat (map (\<lambda>n. snd (get_cluster_topic cl n)) ns) \<and>
   (\<forall>t\<in>set ts. \<not> is_only_local t)"
proof (induction ns arbitrary: ts cs)
  case Nil
  then show ?case by simp
next
  case (Cons n ns)
  obtain r1 cs1 where g: "get_cluster_topic cl n = (r1, cs1)" by force
  obtain r2 cs2 where l: "map_get_cluster_topic cl ns = (r2, cs2)" by force
  from Cons.prems g l obtain t ts' where r1: "r1 = Inr t" and r2: "r2 = Inr ts'"
    and ts: "ts = t # ts'" and cs: "cs = cs1 @ cs2"
    by (auto split: sum.splits)
  from g r1 have nl: "\<not> is_only_local t"
    by (auto simp add: get_cluster_topic_def update_from_cluster_def Let_def
          split: prod.splits sum.splits ClientType.splits)
  from Cons.IH[OF l[unfolded r2]] get_cluster_topic_name[OF g[unfolded r1]] nl show ?case
    by (simp add: ts cs g)
qed

lemma map_get_cluster_topic_total:
  "\<forall>n\<in>set ns. \<exists>t cs. get_cluster_topic cl n = (Inr t, cs) \<Longrightarrow>
   \<exists>ts cs. map_get_cluster_topic cl ns = (Inr ts, cs)"
proof (induction ns)
  case Nil
  then show ?case by simp
next
  case (Cons n ns)
  then obtain t cs ts cs' where "get_cluster_topic cl n = (Inr t, cs)"
    and "map_get_cluster_topic cl ns = (Inr ts, cs')" by force
  then show ?case by simp
qed


definition selected_names ::
  "(string \<Rightarrow> string \<Rightarrow> error + bool) \<Rightarrow> cluster \<Rightarrow> string option \<Rightarrow> bool \<Rightarrow> bool \<Rightarrow> string list" where
  "selected_names re_match cl search_string sort_flag hide_internal =
     (if sort_flag
      then sort (filter (kept re_match search_string hide_internal) (map md_topic (all_topics cl)))
      else filter (kept re_match search_string hide_internal) (map md_topic (all_topics cl)))"

lemma kept_fun:
  "kept re_match search_string hide_internal =
     (\<lambda>n. (case search_string of None \<Rightarrow> True | Some s \<Rightarrow> s = [] \<or> re_match s n = Inr True) \<and>
          (hide_internal \<longrightarrow> \<not> startswith n ''__''))"
  by (simp add: fun_eq_iff kept_def)

lemma filter_kept:
  assumes "(case search_string of
              None \<Rightarrow> Inr ns
            | Some s \<Rightarrow> if s \<noteq> [] then filter_match re_match s ns else Inr ns) = Inr ms"
  shows "(if hide_internal then filter (\<lambda>topic. \<not> startswith topic ''__'') ms else ms) =
         filter (kept re_match search_string hide_internal) ns"
proof (cases search_string)
  case None
  with assms show ?thesis by (simp add: kept_fun)
next
  case (Some s)
  show ?thesis
  proof (cases "s = []")
    case True
    with assms Some show ?thesis by (simp add: kept_fun)
  next
    case False
    with assms Some have "ms = filter (\<lambda>n. re_match s n = Inr True) ns"
      by (simp add: filter_match_Inr)
    with Some False show ?thesis by (simp add: kept_fun conj_commute)
  qed
qed

lemma list_topics_cases:
  assumes "list_topics re_match cl search_string sort_flag hide_internal get_topic_objects = (r, calls)"
  shows "(\<exists>e s. r = Inl e \<and> calls = [ClientPoll, ListTopics None] \<and> search_string = Some s \<and>
            filter_match re_match s (map md_topic (all_topics cl)) = Inl e) \<or>
         (get_topic_objects \<and>
            (\<exists>c. map_get_cluster_topic cl
                    (selected_names re_match cl search_string sort_flag hide_internal) = (r, c) \<and>
                  calls = [ClientPoll, ListTopics None] @ c)) \<or>
         (\<not> get_topic_objects \<and>
            r = Inr (map get_local_topic
                      (selected_names re_match cl search_string sort_flag hide_internal)) \<and>
            calls = [ClientPoll, ListTopics None])"
proof (cases "case search_string of
                None \<Rightarrow> Inr (map md_topic (all_topics cl))
              | Some s \<Rightarrow> if s \<noteq> [] then filter_match re_match s (map md_topic (all_topics cl))
                          else Inr (map md_topic (all_topics cl))")
  case (Inl e)
  then obtain s where "search_string = Some s"
    and "filter_match re_match s (map md_topic (all_topics cl)) = Inl e"
    by (auto split: option.splits if_splits)
  with assms Inl show ?thesis by (simp add: list_topics_def)
next
  case (Inr ms)
  note k = filter_kept[OF Inr, of hide_internal]
  obtain r1 c1 where m: "map_get_cluster_topic cl
      (selected_names re_match cl search_string sort_flag hide_internal) = (r1, c1)" by force
  from assms show ?thesis
    unfolding list_topics_def Let_def Inr sum.case k
    using m by (auto simp add: selected_names_def split: if_splits)
qed

lemma set_selected_names:
  "set (selected_names re_match cl search_string sort_flag hide_internal) =
     {n \<in> md_topic ` set (all_topics cl). kept re_match search_string hide_internal n}"
  by (auto simp add: selected_names_def)

lemma name_get_local_topic: "map name (map get_local_topic ns) = ns"
  by (induction ns) (simp_all add: get_local_topic_def Topic_def)

text \<open>
  C6. The topics that \<^verbatim>\<open>list_topics\<close> returns are exactly the listed names that the filters
  keep, sorted if asked: with \<^verbatim>\<open>hide_internal\<close> none of them starts with \<^verbatim>\<open>__\<close>, and with a
  search string and without \<^verbatim>\<open>hide_internal\<close> they are exactly the listed names that match
  it. Every call to the cluster about a topic, in a call that returns or raises, is about
  a name that the filters keep, and the fetches follow the order of the names returned.
  The call returns if the matcher and the fetches of the names kept do not raise.
\<close>

theorem list_topics_filters:
  assumes "list_topics re_match cl search_string sort_flag hide_internal get_topic_objects = (r, calls)"
  shows "(\<forall>x\<in>set calls. \<forall>n. call_topic x = Some n \<longrightarrow>
            n \<in> md_topic ` set (all_topics cl) \<and> kept re_match search_string hide_internal n) \<and>
         (\<forall>topics. r = Inr topics \<longrightarrow>
            map name topics =
              (if sort_flag
               then sort (filter (kept re_match search_string hide_internal)
                            (map md_topic (all_topics cl)))
               else filter (kept re_match search_string hide_internal)
                      (map md_topic (all_topics cl))) \<and>
            (hide_internal \<longrightarrow> (\<forall>t\<in>set topics. \<not> startswith (name t) ''__'')) \<and>
            (\<forall>s. search_string = Some s \<and> s \<noteq> [] \<and> \<not> hide_internal \<longrightarrow>
               name ` set topics =
                 {n \<in> md_topic ` set (all_topics cl). re_match s n = Inr True}) \<and>
            (get_topic_objects \<longrightarrow>
               calls = [ClientPoll, ListTopics None] @
                       concat (map (\<lambda>t. snd (get_cluster_topic cl (name t))) topics)) \<and>
            (\<not> get_topic_objects \<longrightarrow> calls = [ClientPoll, ListTopics None])) \<and>
         ((\<forall>s. search_string = Some s \<longrightarrow>
             (\<forall>n\<in>md_topic ` set (all_topics cl). \<exists>b. re_match s n = Inr b)) \<and>
          (get_topic_objects \<longrightarrow>
             (\<forall>n\<in>md_topic ` set (all_topics cl). kept re_match search_string hide_internal n \<longrightarrow>
                (\<exists>t cs. get_cluster_topic cl n = (Inr t, cs))))
            \<longrightarrow> (\<exists>topics. r = Inr topics))"
proof -
  let ?sel = "selected_names re_match cl search_string sort_flag hide_internal"
  note c = list_topics_cases[OF assms]
  have calls: "\<forall>x\<in>set calls. \<forall>n. call_topic x = Some n \<longrightarrow> n \<in> set ?sel"
  proof -
    from c consider "calls = [ClientPoll, ListTopics None]"
      | c1 where "map_get_cluster_topic cl ?sel = (r, c1)" "calls = [ClientPoll, ListTopics None] @ c1"
      by blast
    then show ?thesis
    proof cases
      case 1
      then show ?thesis by simp
    next
      case 2
      from map_get_cluster_topic_call_topic[OF 2(1)] 2(2) show ?thesis by auto
    qed
  qed
  have names: "map name topics = ?sel \<and>
      (get_topic_objects \<longrightarrow>
         calls = [ClientPoll, ListTopics None] @
                 concat (map (\<lambda>t. snd (get_cluster_topic cl (name t))) topics)) \<and>
      (\<not> get_topic_objects \<longrightarrow> calls = [ClientPoll, ListTopics None])"
    if r: "r = Inr topics" for topics
  proof (cases get_topic_objects)
    case True
    with c r obtain c1 where m: "map_get_cluster_topic cl ?sel = (Inr topics, c1)"
      and cs: "calls = [ClientPoll, ListTopics None] @ c1" by auto
    from map_get_cluster_topic_Inr[OF m] have n: "map name topics = ?sel"
      and c1: "c1 = concat (map (\<lambda>n. snd (get_cluster_topic cl n)) ?sel)" by simp_all
    have "map (\<lambda>n. snd (get_cluster_topic cl n)) ?sel =
        map (\<lambda>t. snd (get_cluster_topic cl (name t))) topics"
      unfolding n[symmetric] by (simp add: o_def)
    with True n cs c1 show ?thesis by simp
  next
    case False
    with c r have "topics = map get_local_topic ?sel" "calls = [ClientPoll, ListTopics None]"
      by auto
    with False name_get_local_topic[of ?sel] show ?thesis by (simp del: map_map)
  qed
  have total: "\<exists>topics. r = Inr topics"
    if m: "\<forall>s. search_string = Some s \<longrightarrow>
             (\<forall>n\<in>md_topic ` set (all_topics cl). \<exists>b. re_match s n = Inr b)"
      and f: "get_topic_objects \<longrightarrow>
             (\<forall>n\<in>md_topic ` set (all_topics cl). kept re_match search_string hide_internal n \<longrightarrow>
                (\<exists>t cs. get_cluster_topic cl n = (Inr t, cs)))"
  proof -
    have no: "filter_match re_match s (map md_topic (all_topics cl)) \<noteq> Inl e"
      if "search_string = Some s" for s e
      using filter_match_total[of "map md_topic (all_topics cl)" re_match s] m that by auto
    show ?thesis
    proof (cases get_topic_objects)
      case True
      with f have "\<forall>n\<in>set ?sel. \<exists>t cs. get_cluster_topic cl n = (Inr t, cs)"
        unfolding set_selected_names by blast
      from map_get_cluster_topic_total[OF this] obtain ts cs where
        "map_get_cluster_topic cl ?sel = (Inr ts, cs)" by blast
      with c True no show ?thesis by auto
    next
      case False
      with c no show ?thesis by auto
    qed
  qed
  show ?thesis
  proof (intro conjI allI impI ballI)
    fix x n assume "x \<in> set calls" "call_topic x = Some n"
    with calls have "n \<in> set ?sel" by blast
    then show "n \<in> md_topic ` set (all_topics cl)" "kept re_match search_string hide_internal n"
      by (simp_all add: set_selected_names)
  next
    fix topics assume "r = Inr topics"
    from names[OF this] show "map name topics =
              (if sort_flag
               then sort (filter (kept re_match search_string hide_internal)
                            (map md_topic (all_topics cl)))
               else filter (kept re_match search_string hide_internal)
                      (map md_topic (all_topics cl)))"
      by (simp add: selected_names_def)
  next
    fix topics t assume r: "r = Inr topics" and h: hide_internal and t: "t \<in> set topics"
    from names[OF r] have "name ` set topics = set ?sel" by (metis set_map)
    with t have "name t \<in> set ?sel" by blast
    with h show "\<not> startswith (name t) ''__''" by (simp add: set_selected_names kept_def)
  next
    fix topics s assume r: "r = Inr topics"
      and s: "search_string = Some s \<and> s \<noteq> [] \<and> \<not> hide_internal"
    from names[OF r] have "name ` set topics = set ?sel" by (metis set_map)
    with s show "name ` set topics =
                 {n \<in> md_topic ` set (all_topics cl). re_match s n = Inr True}"
      by (simp add: set_selected_names kept_def)
  next
    fix topics assume r: "r = Inr topics" and g: get_topic_objects
    from names[OF r] g show "calls = [ClientPoll, ListTopics None] @
                       concat (map (\<lambda>t. snd (get_cluster_topic cl (name t))) topics)" by simp
  next
    fix topics assume r: "r = Inr topics" and g: "\<not> get_topic_objects"
    from names[OF r] g show "calls = [ClientPoll, ListTopics None]" by simp
  next
    assume "(\<forall>s. search_string = Some s \<longrightarrow>
             (\<forall>n\<in>md_topic ` set (all_topics cl). \<exists>b. re_match s n = Inr b)) \<and>
          (get_topic_objects \<longrightarrow>
             (\<forall>n\<in>md_topic ` set (all_topics cl). kept re_match search_string hide_internal n \<longrightarrow>
                (\<exists>t cs. get_cluster_topic cl n = (Inr t, cs))))"
    then show "\<exists>topics. r = Inr topics" using total by blast
  qed
qed

text \<open>
  A matcher for the patterns without special characters: \<^verbatim>\<open>re.match\<close> holds if the name
  starts with the pattern.
\<close>

definition prefix_match :: "string \<Rightarrow> string \<Rightarrow> error + bool" where
  "prefix_match pattern topic = Inr (startswith topic pattern)"

definition listing_cluster :: cluster where
  "listing_cluster =
     (demo_cluster demo_scan)
       \<lparr>all_topics := map (topic_lookup (demo_cluster demo_scan))
                        [''t1'', ''__consumer_offsets'', ''a1'']\<rparr>"

lemma listing_names:
  "map md_topic (all_topics listing_cluster) = [''t1'', ''__consumer_offsets'', ''a1'']"
  by (simp add: listing_cluster_def demo_cluster_def)

lemma listing_name_set:
  "md_topic ` set (all_topics listing_cluster) = {''t1'', ''__consumer_offsets'', ''a1''}"
  by (simp add: listing_cluster_def demo_cluster_def)

lemma listing_get_cluster_topic:
  "get_cluster_topic listing_cluster ''t1'' = (Inr demo_topic, demo_fetch)"
  by (simp add: get_cluster_topic_def update_from_cluster_def get_client_topic_def
        raise_for_kafka_error_def get_partition_data_def get_partition_def demo_cluster_def
        demo_meta_def demo_topic_def demo_fetch_def Topic_def Let_def listing_cluster_def)

lemma listing_kept:
  "filter (kept prefix_match (Some ''t'') True) [''t1'', ''__consumer_offsets'', ''a1''] = [''t1'']"
  "filter (kept prefix_match None True) [''t1'', ''__consumer_offsets'', ''a1''] = [''t1'', ''a1'']"
  by (simp_all add: kept_def prefix_match_def startswith_def)

lemma listing_sort: "sort [''t1'', ''a1''] = [''a1'', ''t1'']"
  by (simp add: less_eq_char_def)


text \<open>
  C6 as it is stated fails: with the default \<^verbatim>\<open>hide_internal\<close>, a search string that matches
  the internal topic \<^verbatim>\<open>__consumer_offsets\<close> returns no topic, and not the name that matches.
\<close>

theorem list_topics_counterexample:
  "''__consumer_offsets'' \<in> md_topic ` set (all_topics listing_cluster) \<and>
   prefix_match ''__consumer'' ''__consumer_offsets'' = Inr True \<and>
   list_topics prefix_match listing_cluster (Some ''__consumer'') True True True =
     (Inr [], [ClientPoll, ListTopics None])"
  by (simp add: listing_name_set listing_names list_topics_def prefix_match_def startswith_def
        Let_def)



theorem list_topics_filters_witness:
  "(\<exists>topics. list_topics prefix_match listing_cluster (Some ''t'') True True True =
              (Inr topics, [ClientPoll, ListTopics None] @ demo_fetch) \<and>
            map name topics = [''t1'']) \<and>
   (\<exists>topics. list_topics prefix_match listing_cluster None True True False =
              (Inr topics, [ClientPoll, ListTopics None]) \<and>
            map name topics = [''a1'', ''t1''])"
proof (intro conjI)
  obtain r calls where l: "list_topics prefix_match listing_cluster (Some ''t'') True True True =
      (r, calls)" by force
  note th = list_topics_filters[OF l]
  note total = th[THEN conjunct2, THEN conjunct2]
  have m: "\<forall>s. Some ''t'' = Some s \<longrightarrow>
           (\<forall>n\<in>md_topic ` set (all_topics listing_cluster). \<exists>b. prefix_match s n = Inr b)"
    by (simp add: prefix_match_def)
  have f: "True \<longrightarrow>
           (\<forall>n\<in>md_topic ` set (all_topics listing_cluster). kept prefix_match (Some ''t'') True n \<longrightarrow>
              (\<exists>t cs. get_cluster_topic listing_cluster n = (Inr t, cs)))"
    unfolding listing_name_set
    by (simp add: kept_def prefix_match_def startswith_def listing_get_cluster_topic)
  from total m f obtain topics where r: "r = Inr topics" by blast
  note res = th[THEN conjunct2, THEN conjunct1, rule_format, OF r]
  from res[THEN conjunct1, unfolded listing_names listing_kept]
  have n: "map name topics = [''t1'']" by simp
  from res have c: "calls = [ClientPoll, ListTopics None] @
           concat (map (\<lambda>t. snd (get_cluster_topic listing_cluster (name t))) topics)"
    by simp
  from n obtain t where t: "topics = [t]" "name t = ''t1''" by (cases topics) auto
  from c t have "calls = [ClientPoll, ListTopics None] @ demo_fetch"
    by (simp add: listing_get_cluster_topic)
  with l r n show "\<exists>topics. list_topics prefix_match listing_cluster (Some ''t'') True True True =
              (Inr topics, [ClientPoll, ListTopics None] @ demo_fetch) \<and>
            map name topics = [''t1'']"
    by simp
next
  obtain r calls where l: "list_topics prefix_match listing_cluster None True True False =
      (r, calls)" by force
  note th = list_topics_filters[OF l]
  note total = th[THEN conjunct2, THEN conjunct2]
  have m: "\<forall>s. None = Some s \<longrightarrow>
           (\<forall>n\<in>md_topic ` set (all_topics listing_cluster). \<exists>b. prefix_match s n = Inr b)"
    by simp
  have f: "False \<longrightarrow>
           (\<forall>n\<in>md_topic ` set (all_topics listing_cluster). kept prefix_match None True n \<longrightarrow>
              (\<exists>t cs. get_cluster_topic listing_cluster n = (Inr t, cs)))"
    by simp
  from total m f obtain topics where r: "r = Inr topics" by blast
  note res = th[THEN conjunct2, THEN conjunct1, rule_format, OF r]
  from res[THEN conjunct1, unfolded listing_names listing_kept listing_sort]
  have n: "map name topics = [''a1'', ''t1'']" by simp
  from res have c: "calls = [ClientPoll, ListTopics None]" by simp
  with l r n show "\<exists>topics. list_topics prefix_match listing_cluster None True True False =
              (Inr topics, [ClientPoll, ListTopics None]) \<and>
            map name topics = [''a1'', ''t1'']"
    by simp
qed

section \<open>Creating, altering and deleting topics\<close>

text \<open>The defaults of the configuration that \<^verbatim>\<open>create_topics\<close> reads.\<close>

record Config =
  default_num_partitions :: int
  default_replication_factor :: int

text \<open>
  Modelled from the spec: \<^verbatim>\<open>ensure_kafka_future_done\<close> (\<^verbatim>\<open>esque/helpers.py\<close>) is not among
  the sources. It blocks until the future resolves; a future that resolved with an error
  of the broker is an \<^verbatim>\<open>AdminOperationFailedError\<close> with that error, and one that did not
  resolve within its timeout is a \<^verbatim>\<open>CompletionTimeoutError\<close>.
\<close>

definition ensure_kafka_future_done :: "future_outcome \<Rightarrow> error + unit" where
  "ensure_kafka_future_done future =
     (case future of
        Done \<Rightarrow> Inr ()
      | Failed e \<Rightarrow> Inl (AdminOperationFailedError e)
      | TimedOut \<Rightarrow> Inl CompletionTimeoutError)"

text \<open>
  Modelled from the spec: the decorator \<^verbatim>\<open>invalidate_cache_after\<close> (\<^verbatim>\<open>esque/helpers.py\<close>) is
  not among the sources. It runs the operation and then invalidates the cache of the
  cluster metadata on every exit path, as a \<^verbatim>\<open>try\<close>/\<^verbatim>\<open>finally\<close> does: the result or the
  exception of the operation goes through.
\<close>

definition invalidate_cache_after :: "(error + 'a) \<times> call list \<Rightarrow> (error + 'a) \<times> call list" where
  "invalidate_cache_after run = (case run of (r, calls) \<Rightarrow> (r, calls @ [InvalidateCache]))"

text \<open>
  The loop of \<^verbatim>\<open>create_topics\<close>. The properties \<^verbatim>\<open>num_partitions\<close> and \<^verbatim>\<open>replication_factor\<close>
  of a topic are the parameters \<open>partitions_of\<close> and \<open>replicas_of\<close>. The client answers a
  request for one topic with one future, the one that is awaited.
\<close>

fun create_topics_loop ::
  "(topic \<Rightarrow> int option) \<Rightarrow> (topic \<Rightarrow> int option) \<Rightarrow> Config \<Rightarrow> cluster \<Rightarrow> topic list
     \<Rightarrow> (error + unit) \<times> call list" where
  "create_topics_loop partitions_of replicas_of cfg cl [] = (Inr (), [])"
| "create_topics_loop partitions_of replicas_of cfg cl (t # topics) =
     (let partitions = (case partitions_of t of Some p \<Rightarrow> p | None \<Rightarrow> default_num_partitions cfg);
          replicas = (case replicas_of t of Some r \<Rightarrow> r | None \<Rightarrow> default_replication_factor cfg);
          new_topic = \<lparr>nt_name = name t, nt_num_partitions = partitions,
                       nt_replication_factor = replicas, nt_config = config t\<rparr>
      in case ensure_kafka_future_done (create_future cl new_topic) of
           Inl e \<Rightarrow> (Inl e, [CreateTopics new_topic])
         | Inr _ \<Rightarrow>
             (case create_topics_loop partitions_of replicas_of cfg cl topics of
                (r, calls) \<Rightarrow> (r, CreateTopics new_topic # calls)))"

definition create_topics ::
  "(topic \<Rightarrow> int option) \<Rightarrow> (topic \<Rightarrow> int option) \<Rightarrow> Config \<Rightarrow> cluster \<Rightarrow> topic list
     \<Rightarrow> (error + unit) \<times> call list" where
  "create_topics partitions_of replicas_of cfg cl topics =
     invalidate_cache_after (create_topics_loop partitions_of replicas_of cfg cl topics)"

fun alter_configs_loop :: "cluster \<Rightarrow> topic list \<Rightarrow> (error + unit) \<times> call list" where
  "alter_configs_loop cl [] = (Inr (), [])"
| "alter_configs_loop cl (t # topics) =
     (case ensure_kafka_future_done (alter_future cl (name t) (config t)) of
        Inl e \<Rightarrow> (Inl e, [AlterConfigs (name t) (config t)])
      | Inr _ \<Rightarrow>
          (case alter_configs_loop cl topics of
             (r, calls) \<Rightarrow> (r, AlterConfigs (name t) (config t) # calls)))"

definition alter_configs :: "cluster \<Rightarrow> topic list \<Rightarrow> (error + unit) \<times> call list" where
  "alter_configs cl topics = invalidate_cache_after (alter_configs_loop cl topics)"

definition delete_topic :: "cluster \<Rightarrow> topic \<Rightarrow> (error + unit) \<times> call list" where
  "delete_topic cl t =
     invalidate_cache_after
       (ensure_kafka_future_done (delete_future cl (name t)), [DeleteTopics (name t)])"

text \<open>The future that the cluster gives for an admin request.\<close>

fun admin_future :: "cluster \<Rightarrow> call \<Rightarrow> future_outcome option" where
  "admin_future cl (CreateTopics q) = Some (create_future cl q)"
| "admin_future cl (AlterConfigs n c) = Some (alter_future cl n c)"
| "admin_future cl (DeleteTopics n) = Some (delete_future cl n)"
| "admin_future cl c = None"

text \<open>The error that a future that is not done is surfaced as.\<close>

definition surfaced :: "future_outcome \<Rightarrow> error \<Rightarrow> bool" where
  "surfaced future e =
     (case future of
        Done \<Rightarrow> False
      | Failed k \<Rightarrow> e = AdminOperationFailedError k
      | TimedOut \<Rightarrow> e = CompletionTimeoutError)"

text \<open>
  What the invalidation after an operation on \<open>n\<close> topics is to be: the invalidation is
  the last thing done and is done once; the operation succeeds only if it has made its
  \<open>n\<close> requests and each future is done; and if it fails, the error is that of the future
  of its last request.
\<close>

definition invalidated_after :: "cluster \<Rightarrow> nat \<Rightarrow> (error + unit) \<times> call list \<Rightarrow> bool" where
  "invalidated_after cl n run \<longleftrightarrow>
     (\<exists>calls. snd run = calls @ [InvalidateCache] \<and> InvalidateCache \<notin> set calls \<and>
        (fst run = Inr () \<longleftrightarrow>
           length calls = n \<and> (\<forall>c\<in>set calls. admin_future cl c = Some Done)) \<and>
        (\<forall>e. fst run = Inl e \<longrightarrow>
           calls \<noteq> [] \<and> (\<exists>f. admin_future cl (last calls) = Some f \<and> surfaced f e)))"

text \<open>The requests to create a topic among the calls, in order.\<close>

fun create_requests :: "call list \<Rightarrow> new_topic list" where
  "create_requests [] = []"
| "create_requests (CreateTopics q # calls) = q # create_requests calls"
| "create_requests (c # calls) = create_requests calls"

text \<open>A loop that makes one request for each element and awaits its future.\<close>

fun await_each :: "('a \<Rightarrow> call) \<Rightarrow> ('a \<Rightarrow> future_outcome) \<Rightarrow> 'a list \<Rightarrow> (error + unit) \<times> call list" where
  "await_each mk fut [] = (Inr (), [])"
| "await_each mk fut (x # xs) =
     (case ensure_kafka_future_done (fut x) of
        Inl e \<Rightarrow> (Inl e, [mk x])
      | Inr _ \<Rightarrow> (case await_each mk fut xs of (r, calls) \<Rightarrow> (r, mk x # calls)))"

definition request :: "(topic \<Rightarrow> int option) \<Rightarrow> (topic \<Rightarrow> int option) \<Rightarrow> Config \<Rightarrow> topic \<Rightarrow> new_topic" where
  "request partitions_of replicas_of cfg t =
     \<lparr>nt_name = name t,
      nt_num_partitions = (case partitions_of t of Some p \<Rightarrow> p | None \<Rightarrow> default_num_partitions cfg),
      nt_replication_factor = (case replicas_of t of Some r \<Rightarrow> r | None \<Rightarrow> default_replication_factor cfg),
      nt_config = config t\<rparr>"

lemma create_topics_loop_await:
  "create_topics_loop partitions_of replicas_of cfg cl topics =
     await_each CreateTopics (create_future cl) (map (request partitions_of replicas_of cfg) topics)"
proof (induction topics)
  case Nil
  then show ?case by simp
next
  case (Cons t topics)
  have q: "\<lparr>nt_name = name t,
            nt_num_partitions = (case partitions_of t of Some p \<Rightarrow> p | None \<Rightarrow> default_num_partitions cfg),
            nt_replication_factor = (case replicas_of t of Some r \<Rightarrow> r | None \<Rightarrow> default_replication_factor cfg),
            nt_config = config t\<rparr> = request partitions_of replicas_of cfg t"
    by (simp add: request_def)
  show ?case by (simp add: Let_def q Cons.IH split: sum.splits prod.splits)
qed

lemma alter_configs_loop_await:
  "alter_configs_loop cl topics =
     await_each (\<lambda>t. AlterConfigs (name t) (config t)) (\<lambda>t. alter_future cl (name t) (config t)) topics"
  by (induction topics) (simp_all split: sum.splits prod.splits)

lemma ensure_kafka_future_done_Inl:
  "ensure_kafka_future_done f = Inl e \<longleftrightarrow> surfaced f e"
  by (cases f) (auto simp add: ensure_kafka_future_done_def surfaced_def)

lemma ensure_kafka_future_done_Inr:
  "ensure_kafka_future_done f = Inr u \<longleftrightarrow> f = Done"
  by (cases f) (auto simp add: ensure_kafka_future_done_def)

lemma await_each_cases:
  "await_each mk fut xs = (r, calls) \<Longrightarrow>
   (r = Inr () \<and> calls = map mk xs \<and> (\<forall>x\<in>set xs. fut x = Done)) \<or>
   (\<exists>pre x post e. xs = pre @ x # post \<and> r = Inl e \<and> calls = map mk (pre @ [x]) \<and>
      (\<forall>y\<in>set pre. fut y = Done) \<and> surfaced (fut x) e)"
proof (induction xs arbitrary: r calls)
  case Nil
  then show ?case by simp
next
  case (Cons x xs)
  show ?case
  proof (cases "ensure_kafka_future_done (fut x)")
    case (Inl e)
    with Cons.prems have "r = Inl e" "calls = map mk ([] @ [x])" by simp_all
    moreover from Inl have "surfaced (fut x) e" by (simp add: ensure_kafka_future_done_Inl)
    ultimately have "x # xs = [] @ x # xs \<and> r = Inl e \<and> calls = map mk ([] @ [x]) \<and>
        (\<forall>y\<in>set []. fut y = Done) \<and> surfaced (fut x) e" by simp
    then show ?thesis by blast
  next
    case (Inr u)
    then have d: "fut x = Done" by (simp add: ensure_kafka_future_done_Inr)
    obtain r' calls' where a: "await_each mk fut xs = (r', calls')" by force
    with Cons.prems Inr have r: "r = r'" and c: "calls = mk x # calls'" by simp_all
    from Cons.IH[OF a] show ?thesis
    proof
      assume "r' = Inr () \<and> calls' = map mk xs \<and> (\<forall>x\<in>set xs. fut x = Done)"
      with r c d show ?thesis by simp
    next
      assume "\<exists>pre y post e. xs = pre @ y # post \<and> r' = Inl e \<and> calls' = map mk (pre @ [y]) \<and>
          (\<forall>z\<in>set pre. fut z = Done) \<and> surfaced (fut y) e"
      then obtain pre y post e where "xs = pre @ y # post" "r' = Inl e"
        "calls' = map mk (pre @ [y])" "\<forall>z\<in>set pre. fut z = Done" "surfaced (fut y) e" by blast
      with r c d have "x # xs = (x # pre) @ y # post \<and> r = Inl e \<and>
          calls = map mk ((x # pre) @ [y]) \<and> (\<forall>z\<in>set (x # pre). fut z = Done) \<and>
          surfaced (fut y) e" by simp
      then show ?thesis by blast
    qed
  qed
qed


lemma surfaced_not_Done: "surfaced f e \<Longrightarrow> f \<noteq> Done"
  by (auto simp add: surfaced_def)

lemma invalidated_after_await:
  assumes mk: "\<And>x. admin_future cl (mk x) = Some (fut x)"
  shows "invalidated_after cl (length xs) (invalidate_cache_after (await_each mk fut xs))"
proof -
  obtain r calls where a: "await_each mk fut xs = (r, calls)" by force
  have ni: "InvalidateCache \<notin> set (map mk ys)" for ys
  proof
    assume "InvalidateCache \<in> set (map mk ys)"
    then obtain y where "mk y = InvalidateCache" by (auto simp add: image_iff) metis
    with mk[of y] show False by simp
  qed
  from await_each_cases[OF a] show ?thesis
  proof
    assume "r = Inr () \<and> calls = map mk xs \<and> (\<forall>x\<in>set xs. fut x = Done)"
    with ni[of xs] mk show ?thesis
      by (auto simp add: invalidated_after_def invalidate_cache_after_def a)
  next
    assume "\<exists>pre x post e. xs = pre @ x # post \<and> r = Inl e \<and> calls = map mk (pre @ [x]) \<and>
      (\<forall>y\<in>set pre. fut y = Done) \<and> surfaced (fut x) e"
    then obtain pre x post e where xs: "xs = pre @ x # post" and r: "r = Inl e"
      and c: "calls = map mk (pre @ [x])" and s: "surfaced (fut x) e" by blast
    from surfaced_not_Done[OF s] mk[of x] have nd: "admin_future cl (mk x) \<noteq> Some Done" by simp
    have "snd (invalidate_cache_after (await_each mk fut xs)) = calls @ [InvalidateCache]"
      by (simp add: invalidate_cache_after_def a)
    moreover have "InvalidateCache \<notin> set calls" unfolding c by (rule ni)
    moreover have "fst (invalidate_cache_after (await_each mk fut xs)) = Inl e"
      by (simp add: invalidate_cache_after_def a r)
    moreover have "\<not> (length calls = length xs \<and> (\<forall>c\<in>set calls. admin_future cl c = Some Done))"
      using nd by (auto simp add: c)
    moreover have "calls \<noteq> []" "admin_future cl (last calls) = Some (fut x)"
      by (simp_all add: c mk)
    ultimately show ?thesis
      unfolding invalidated_after_def using s by (intro exI[of _ calls]) auto
  qed
qed

lemma delete_topic_await:
  "delete_topic cl t =
     invalidate_cache_after (await_each DeleteTopics (delete_future cl) [name t])"
  by (cases "delete_future cl (name t)")
     (simp_all add: delete_topic_def ensure_kafka_future_done_def)

lemma create_requests_map:
  "create_requests (map CreateTopics qs @ [InvalidateCache]) = qs"
  by (induction qs) simp_all

text \<open>
  C4. Each of \<^verbatim>\<open>create_topics\<close>, \<^verbatim>\<open>alter_configs\<close> and \<^verbatim>\<open>delete_topic\<close> ends with the
  invalidation of the cache, once, after its last request, whether it succeeds or fails;
  it succeeds only if each of its requests is made and its future is done, and otherwise
  it fails with the error of the future of its last request.
\<close>

theorem mutating_operations_invalidate_cache:
  "invalidated_after cl (length topics) (create_topics partitions_of replicas_of cfg cl topics) \<and>
   invalidated_after cl (length topics) (alter_configs cl topics) \<and>
   invalidated_after cl 1 (delete_topic cl t)"
proof (intro conjI)
  from invalidated_after_await[of cl CreateTopics "create_future cl"
      "map (request partitions_of replicas_of cfg) topics"]
  show "invalidated_after cl (length topics) (create_topics partitions_of replicas_of cfg cl topics)"
    by (simp add: create_topics_def create_topics_loop_await)
next
  from invalidated_after_await[of cl "\<lambda>t. AlterConfigs (name t) (config t)"
      "\<lambda>t. alter_future cl (name t) (config t)" topics]
  show "invalidated_after cl (length topics) (alter_configs cl topics)"
    by (simp add: alter_configs_def alter_configs_loop_await)
next
  from invalidated_after_await[of cl DeleteTopics "delete_future cl" "[name t]"]
  show "invalidated_after cl 1 (delete_topic cl t)"
    by (simp add: delete_topic_await)
qed

text \<open>
  C7. The requests that \<^verbatim>\<open>create_topics\<close> submits are those of the topics, in order: each
  has the name and the configuration of its topic, its number of partitions (its
  replication factor) if the topic has one, and the default of the configuration if the
  topic has none. A request is submitted only when the future of the one before is done;
  the call succeeds if and only if every topic has been submitted and every future is
  done, and otherwise it fails with the error of the future of the last request.
\<close>

theorem create_topics_defaults:
  assumes "create_topics partitions_of replicas_of cfg cl topics = (r, calls)"
  shows "length (create_requests calls) \<le> length topics \<and>
         (\<forall>i<length (create_requests calls).
            nt_name (create_requests calls ! i) = name (topics ! i) \<and>
            nt_config (create_requests calls ! i) = config (topics ! i) \<and>
            (partitions_of (topics ! i) = None \<longrightarrow>
               nt_num_partitions (create_requests calls ! i) = default_num_partitions cfg) \<and>
            (\<forall>p. partitions_of (topics ! i) = Some p \<longrightarrow>
               nt_num_partitions (create_requests calls ! i) = p) \<and>
            (replicas_of (topics ! i) = None \<longrightarrow>
               nt_replication_factor (create_requests calls ! i) = default_replication_factor cfg) \<and>
            (\<forall>p. replicas_of (topics ! i) = Some p \<longrightarrow>
               nt_replication_factor (create_requests calls ! i) = p)) \<and>
         (\<forall>q\<in>set (butlast (create_requests calls)). create_future cl q = Done) \<and>
         (r = Inr () \<longleftrightarrow>
            length (create_requests calls) = length topics \<and>
            (\<forall>q\<in>set (create_requests calls). create_future cl q = Done)) \<and>
         (\<forall>e. r = Inl e \<longrightarrow>
            create_requests calls \<noteq> [] \<and>
            surfaced (create_future cl (last (create_requests calls))) e)"
proof -
  let ?req = "request partitions_of replicas_of cfg"
  obtain r' calls' where a: "await_each CreateTopics (create_future cl) (map ?req topics) = (r', calls')"
    by force
  with assms have r: "r = r'" and c: "calls = calls' @ [InvalidateCache]"
    by (simp_all add: create_topics_def create_topics_loop_await invalidate_cache_after_def)
  have fields: "nt_name (?req t) = name t \<and> nt_config (?req t) = config t \<and>
      (partitions_of t = None \<longrightarrow> nt_num_partitions (?req t) = default_num_partitions cfg) \<and>
      (\<forall>p. partitions_of t = Some p \<longrightarrow> nt_num_partitions (?req t) = p) \<and>
      (replicas_of t = None \<longrightarrow> nt_replication_factor (?req t) = default_replication_factor cfg) \<and>
      (\<forall>p. replicas_of t = Some p \<longrightarrow> nt_replication_factor (?req t) = p)" for t
    by (simp add: request_def)
  from await_each_cases[OF a] show ?thesis
  proof
    assume "r' = Inr () \<and> calls' = map CreateTopics (map ?req topics) \<and>
        (\<forall>x\<in>set (map ?req topics). create_future cl x = Done)"
    then have r': "r' = Inr ()" and c': "calls' = map CreateTopics (map ?req topics)"
      and d: "\<forall>x\<in>set (map ?req topics). create_future cl x = Done"
      by blast+
    have cr: "create_requests calls = map ?req topics" by (simp only: c c' create_requests_map)
    have b: "\<forall>q\<in>set (butlast (map ?req topics)). create_future cl q = Done"
      using d by (meson in_set_butlastD)
    show ?thesis
      unfolding cr r r' using d b fields by (simp del: set_map)
  next
    assume "\<exists>pre x post e. map ?req topics = pre @ x # post \<and> r' = Inl e \<and>
        calls' = map CreateTopics (pre @ [x]) \<and>
        (\<forall>y\<in>set pre. create_future cl y = Done) \<and> surfaced (create_future cl x) e"
    then obtain pre x post e where m: "map ?req topics = pre @ x # post" and r': "r' = Inl e"
      and c': "calls' = map CreateTopics (pre @ [x])"
      and d: "\<forall>y\<in>set pre. create_future cl y = Done" and s: "surfaced (create_future cl x) e"
      by blast
    have cr: "create_requests calls = pre @ [x]" by (simp only: c c' create_requests_map)
    from m have len: "length topics = length pre + Suc (length post)"
      by (metis length_map length_append length_Cons)
    have nth: "(pre @ [x]) ! i = ?req (topics ! i)" if "i < length (pre @ [x])" for i
    proof -
      from that len have i: "i < length topics" by simp
      have "(pre @ [x]) ! i = (pre @ x # post) ! i"
        using that by (cases "i < length pre") (simp_all add: nth_append)
      also have "\<dots> = map ?req topics ! i" by (simp only: m)
      also have "\<dots> = ?req (topics ! i)" using i by simp
      finally show ?thesis .
    qed
    have 1: "length (pre @ [x]) \<le> length topics" using len by simp
    have 2: "\<forall>i<length (pre @ [x]).
            nt_name ((pre @ [x]) ! i) = name (topics ! i) \<and>
            nt_config ((pre @ [x]) ! i) = config (topics ! i) \<and>
            (partitions_of (topics ! i) = None \<longrightarrow>
               nt_num_partitions ((pre @ [x]) ! i) = default_num_partitions cfg) \<and>
            (\<forall>p. partitions_of (topics ! i) = Some p \<longrightarrow>
               nt_num_partitions ((pre @ [x]) ! i) = p) \<and>
            (replicas_of (topics ! i) = None \<longrightarrow>
               nt_replication_factor ((pre @ [x]) ! i) = default_replication_factor cfg) \<and>
            (\<forall>p. replicas_of (topics ! i) = Some p \<longrightarrow>
               nt_replication_factor ((pre @ [x]) ! i) = p)"
      using nth fields by (simp del: nth_append)
    have 3: "\<forall>q\<in>set (butlast (pre @ [x])). create_future cl q = Done" using d by simp
    have 4: "r = Inr () \<longleftrightarrow>
            length (pre @ [x]) = length topics \<and>
            (\<forall>q\<in>set (pre @ [x]). create_future cl q = Done)"
      using surfaced_not_Done[OF s] by (simp add: r r')
    have 5: "\<forall>e. r = Inl e \<longrightarrow>
            pre @ [x] \<noteq> [] \<and> surfaced (create_future cl (last (pre @ [x]))) e"
      using s by (simp add: r r')
    show ?thesis unfolding cr using 1 2 3 4 5 by blast
  qed
qed


definition admin_cluster :: cluster where
  "admin_cluster =
     (demo_cluster demo_scan)
       \<lparr>create_future := (\<lambda>q. if nt_name q = ''bad'' then Failed 36 else Done),
        alter_future := (\<lambda>n c. if n = ''slow'' then TimedOut else Done),
        delete_future := (\<lambda>n. if n = ''gone'' then Failed 3 else Done)\<rparr>"

definition demo_config :: Config where
  "demo_config = \<lparr>default_num_partitions = 1, default_replication_factor = 3\<rparr>"

definition new_topics :: "topic list" where
  "new_topics = [Topic ''a'', (Topic ''bad'')\<lparr>num_partitions := Some 4\<rparr>, Topic ''c'']"

definition admin_calls :: "call list" where
  "admin_calls =
     [CreateTopics \<lparr>nt_name = ''a'', nt_num_partitions = 1, nt_replication_factor = 3, nt_config = []\<rparr>,
      CreateTopics \<lparr>nt_name = ''bad'', nt_num_partitions = 4, nt_replication_factor = 3, nt_config = []\<rparr>,
      InvalidateCache]"

lemma admin_create_fails:
  "create_topics demo_partitions_of demo_replicas_of demo_config admin_cluster new_topics =
     (Inl (AdminOperationFailedError 36), admin_calls)"
  by (simp add: create_topics_def invalidate_cache_after_def ensure_kafka_future_done_def Let_def
        admin_cluster_def demo_config_def new_topics_def admin_calls_def Topic_def
        demo_partitions_of_def demo_replicas_of_def)

theorem mutating_operations_invalidate_cache_witness:
  "invalidated_after admin_cluster 3
     (create_topics demo_partitions_of demo_replicas_of demo_config admin_cluster new_topics) \<and>
   create_topics demo_partitions_of demo_replicas_of demo_config admin_cluster new_topics =
     (Inl (AdminOperationFailedError 36), admin_calls) \<and>
   last admin_calls = InvalidateCache \<and>
   invalidated_after admin_cluster 1 (alter_configs admin_cluster [Topic ''slow'']) \<and>
   alter_configs admin_cluster [Topic ''slow''] =
     (Inl CompletionTimeoutError, [AlterConfigs ''slow'' [], InvalidateCache]) \<and>
   invalidated_after admin_cluster 1 (delete_topic admin_cluster (Topic ''t1'')) \<and>
   delete_topic admin_cluster (Topic ''t1'') = (Inr (), [DeleteTopics ''t1'', InvalidateCache]) \<and>
   delete_topic admin_cluster (Topic ''gone'') =
     (Inl (AdminOperationFailedError 3), [DeleteTopics ''gone'', InvalidateCache])"
proof -
  have a: "alter_configs admin_cluster [Topic ''slow''] =
     (Inl CompletionTimeoutError, [AlterConfigs ''slow'' [], InvalidateCache])"
    by (simp add: alter_configs_def invalidate_cache_after_def ensure_kafka_future_done_def
          admin_cluster_def Topic_def)
  have d: "delete_topic admin_cluster (Topic ''t1'') = (Inr (), [DeleteTopics ''t1'', InvalidateCache])"
    "delete_topic admin_cluster (Topic ''gone'') =
       (Inl (AdminOperationFailedError 3), [DeleteTopics ''gone'', InvalidateCache])"
    by (simp_all add: delete_topic_def invalidate_cache_after_def ensure_kafka_future_done_def
          admin_cluster_def Topic_def)
  have l: "length new_topics = 3" "last admin_calls = InvalidateCache"
    by (simp_all add: new_topics_def admin_calls_def)
  from mutating_operations_invalidate_cache[of admin_cluster new_topics demo_partitions_of
      demo_replicas_of demo_config "Topic ''t1''"]
    mutating_operations_invalidate_cache[of admin_cluster "[Topic ''slow'']" demo_partitions_of
      demo_replicas_of demo_config "Topic ''t1''"]
  show ?thesis
    by (simp only: l admin_create_fails a d list.size One_nat_def add_0 simp_thms)
qed

theorem create_topics_defaults_witness:
  "create_topics demo_partitions_of demo_replicas_of demo_config admin_cluster new_topics =
     (Inl (AdminOperationFailedError 36), admin_calls) \<and>
   demo_partitions_of (new_topics ! 0) = None \<and>
   nt_num_partitions (create_requests admin_calls ! 0) = default_num_partitions demo_config \<and>
   demo_partitions_of (new_topics ! 1) = Some 4 \<and>
   nt_num_partitions (create_requests admin_calls ! 1) = 4 \<and>
   demo_replicas_of (new_topics ! 1) = None \<and>
   nt_replication_factor (create_requests admin_calls ! 1) = default_replication_factor demo_config \<and>
   length (create_requests admin_calls) = 2 \<and>
   surfaced (create_future admin_cluster (last (create_requests admin_calls)))
     (AdminOperationFailedError 36)"
proof -
  note th = create_topics_defaults[OF admin_create_fails]
  have n: "length (create_requests admin_calls) = 2" by (simp add: admin_calls_def)
  have p: "demo_partitions_of (new_topics ! 0) = None" "demo_partitions_of (new_topics ! 1) = Some 4"
    "demo_replicas_of (new_topics ! 1) = None"
    by (simp_all add: new_topics_def Topic_def demo_partitions_of_def demo_replicas_of_def)
  from th n have 0: "nt_num_partitions (create_requests admin_calls ! 0) =
      default_num_partitions demo_config"
    using p(1) by simp
  from th n have 1: "nt_num_partitions (create_requests admin_calls ! 1) = 4"
    "nt_replication_factor (create_requests admin_calls ! 1) = default_replication_factor demo_config"
    using p(2,3) by simp_all
  from th have s: "surfaced (create_future admin_cluster (last (create_requests admin_calls)))
     (AdminOperationFailedError 36)" by simp
  from admin_create_fails p 0 1 n s show ?thesis by simp
qed

end
